theory Spec2Isabelle
  imports Complex_Main "HOL-Library.AList"
begin

section \<open>Strings and missing values\<close>

text \<open>
  A Python \<open>str\<close> is modelled as the list of its code points (\<open>ord\<close> of each character), so
  that \<open>length\<close> counts what Python's \<open>len\<close> counts, also for Korean text and emoji.
\<close>

type_synonym ustr = "int list"

text \<open>
  \<open>str.isspace\<close> of one character: the code points Python treats as whitespace, which are
  the ones \<open>str.strip()\<close> without arguments removes.
\<close>

definition isspace :: "int \<Rightarrow> bool" where
  "isspace c = ((9 \<le> c \<and> c \<le> 13) \<or> (28 \<le> c \<and> c \<le> 32) \<or> c = 133 \<or> c = 160 \<or> c = 5760
     \<or> (8192 \<le> c \<and> c \<le> 8202) \<or> c = 8232 \<or> c = 8233 \<or> c = 8239 \<or> c = 8287 \<or> c = 12288)"

definition strip :: "ustr \<Rightarrow> ustr" where
  "strip s = rev (dropWhile isspace (rev (dropWhile isspace s)))"

text \<open>
  Python's slice \<open>s[a:b]\<close> for integer bounds: a negative bound counts from the end, and
  both bounds are clipped to the string.
\<close>

definition py_slice :: "'a list \<Rightarrow> int \<Rightarrow> int \<Rightarrow> 'a list" where
  "py_slice s a b =
     (let n = int (length s);
          lo = (if a < 0 then max 0 (a + n) else min a n);
          hi = (if b < 0 then max 0 (b + n) else min b n)
      in take (nat (hi - lo)) (drop (nat lo) s))"

text \<open>
  A cell of the article table as the ingest code sees it: \<open>None\<close>, a float NaN (what pandas
  reads from an empty spreadsheet cell), or a string. \<open>pd_isna\<close> is \<open>pd.isna\<close> on such a
  scalar.
\<close>

datatype cell = CNone | CNaN | CStr ustr

datatype py_error = ValueError

definition pd_isna :: "cell \<Rightarrow> bool" where
  "pd_isna c = (case c of CNone \<Rightarrow> True | CNaN \<Rightarrow> True | CStr _ \<Rightarrow> False)"

section \<open>The chunker (Graph\_Build.chunk\_text)\<close>

text \<open>
  The loop \<open>for i in range(0, len(text), step)\<close> with \<open>step = chunk_size - overlap\<close>, as a
  recursion on \<open>i\<close>. \<open>range\<close> with a negative step and a positive stop is empty; with a zero
  step it raises, which \<open>chunk_text\<close> below decides before the loop starts.
\<close>

function chunk_loop :: "ustr \<Rightarrow> int \<Rightarrow> int \<Rightarrow> int \<Rightarrow> ustr list" where
  "chunk_loop text chunk_size step i =
     (if 0 < step \<and> i < int (length text)
      then (let chunk = py_slice text i (i + chunk_size)
            in (if strip chunk \<noteq> [] then [strip chunk] else [])
               @ chunk_loop text chunk_size step (i + step))
      else [])"
  by pat_completeness auto
termination
  by (relation "measure (\<lambda>(text, chunk_size, step, i). nat (int (length text) - i))") auto

declare chunk_loop.simps [simp del]

definition chunk_text :: "cell \<Rightarrow> int \<Rightarrow> int \<Rightarrow> py_error + ustr list" where
  "chunk_text text chunk_size overlap =
     (if pd_isna text \<or> text = CStr [] then Inr []
      else (case text of
              CStr s \<Rightarrow> (if chunk_size - overlap = 0 then Inl ValueError
                         else Inr (chunk_loop s chunk_size (chunk_size - overlap) 0))
            | _ \<Rightarrow> Inr []))"

text \<open>
  The windows \<open>text[i:i + chunk_size]\<close> the loop slices, before trimming and before blank ones
  are dropped.
\<close>

function windows :: "ustr \<Rightarrow> int \<Rightarrow> int \<Rightarrow> int \<Rightarrow> ustr list" where
  "windows text chunk_size step i =
     (if 0 < step \<and> i < int (length text)
      then py_slice text i (i + chunk_size) # windows text chunk_size step (i + step)
      else [])"
  by pat_completeness auto
termination
  by (relation "measure (\<lambda>(text, chunk_size, step, i). nat (int (length text) - i))") auto

declare windows.simps [simp del]

text \<open>
  The specification's reconstruction: every fragment loses the tail that the next fragment
  reproduces, that is, it is cut to its first \<open>step\<close> characters (the last fragment is no
  longer than that), and the pieces are concatenated.
\<close>

definition drop_overlap :: "int \<Rightarrow> ustr list \<Rightarrow> ustr" where
  "drop_overlap step frags = concat (map (take (nat step)) frags)"

text \<open>ASCII literals of the source as code-point strings, and \<open>str(i)\<close> for \<open>i \<ge> 0\<close>.\<close>

definition asc :: "string \<Rightarrow> ustr" where
  "asc s = map of_char s"

function str_nat :: "nat \<Rightarrow> ustr" where
  "str_nat n = (if n < 10 then [48 + int n] else str_nat (n div 10) @ [48 + int (n mod 10)])"
  by pat_completeness auto
termination
  by (relation "measure id") auto

declare str_nat.simps [simp del]

section \<open>The property graph\<close>

text \<open>
  The Neo4j store as the ingest and the retrieval code use it: nodes with an identity
  (\<open>elementId\<close>), labels and properties; relationships with a type and two end points.
  The property names the code reads or writes form a fixed set. A property value is a string,
  an integer (\<open>chunk_index\<close>) or an embedding vector, whose components are opaque here.
\<close>

datatype label = Article | Content | Media | Category

datatype reltype = HAS_CHUNK | PUBLISHED | BELONGS_TO

datatype pkey = K_article_id | K_title | K_url | K_published_date | K_content_id | K_chunk
  | K_chunk_index | K_name | K_embedding

datatype pval = VStr ustr | VInt int | VVec "real list"

record node =
  nid :: nat
  labels :: "label list"
  props :: "(pkey \<times> pval) list"

record rel =
  rtype :: reltype
  src :: nat
  dst :: nat

record graph =
  nodes :: "node list"
  rels :: "rel list"
  next_id :: nat

definition empty_graph :: graph where
  "empty_graph = \<lparr>nodes = [], rels = [], next_id = 0\<rparr>"

text \<open>\<open>MATCH (n) DETACH DELETE n\<close>: every node and every relationship goes.\<close>

definition clear_database :: "graph \<Rightarrow> graph" where
  "clear_database g = g\<lparr>nodes := [], rels := []\<rparr>"

subsection \<open>The Cypher clauses the code runs\<close>

text \<open>
  A node pattern \<open>(x:Label {key: value})\<close>. A property that is not set reads as null and
  equals nothing.
\<close>

type_synonym pat = "label \<times> pkey \<times> pval"

definition get_prop :: "node \<Rightarrow> pkey \<Rightarrow> pval option" where
  "get_prop n k = map_of (props n) k"

definition matches :: "pat \<Rightarrow> node \<Rightarrow> bool" where
  "matches p n = (case p of (l, k, v) \<Rightarrow> l \<in> set (labels n) \<and> get_prop n k = Some v)"

text \<open>
  \<open>MERGE (x:Label {key: value})\<close>: if some node matches, nothing is created; otherwise one
  node with that label and that property is.
\<close>

definition merge_node :: "pat \<Rightarrow> graph \<Rightarrow> graph" where
  "merge_node p g =
     (if list_ex (matches p) (nodes g) then g
      else (case p of (l, k, v) \<Rightarrow>
              g\<lparr>nodes := nodes g @ [\<lparr>nid = next_id g, labels = [l], props = [(k, v)]\<rparr>],
                next_id := Suc (next_id g)\<rparr>))"

text \<open>\<open>SET x.k1 = v1, x.k2 = v2, ...\<close> on every node the pattern binds.\<close>

definition set_node_props :: "(pkey \<times> pval) list \<Rightarrow> node \<Rightarrow> node" where
  "set_node_props kvs n = n\<lparr>props := fold (\<lambda>(k, v). AList.update k v) kvs (props n)\<rparr>"

definition set_props :: "pat \<Rightarrow> (pkey \<times> pval) list \<Rightarrow> graph \<Rightarrow> graph" where
  "set_props p kvs g =
     g\<lparr>nodes := map (\<lambda>n. if matches p n then set_node_props kvs n else n) (nodes g)\<rparr>"

text \<open>
  \<open>MERGE (a)-[:T]->(b)\<close> for one bound pair: a relationship is created only if none of that
  type runs from \<open>a\<close> to \<open>b\<close>.
\<close>

definition has_rel :: "reltype \<Rightarrow> nat \<Rightarrow> nat \<Rightarrow> graph \<Rightarrow> bool" where
  "has_rel t a b g = list_ex (\<lambda>r. rtype r = t \<and> src r = a \<and> dst r = b) (rels g)"

definition merge_rel :: "reltype \<Rightarrow> nat \<times> nat \<Rightarrow> graph \<Rightarrow> graph" where
  "merge_rel t ab g =
     (case ab of (a, b) \<Rightarrow>
        if has_rel t a b g then g
        else g\<lparr>rels := rels g @ [\<lparr>rtype = t, src = a, dst = b\<rparr>]\<rparr>)"

text \<open>The rows of \<open>MATCH (x ...) MATCH (y ...)\<close>: every pair of matching nodes.\<close>

definition match2 :: "pat \<Rightarrow> pat \<Rightarrow> graph \<Rightarrow> (node \<times> node) list" where
  "match2 p q g =
     concat (map (\<lambda>x. map (\<lambda>y. (x, y)) (filter (matches q) (nodes g)))
               (filter (matches p) (nodes g)))"

text \<open>
  \<open>MATCH (x ...) MATCH (y ...) MERGE (x)-[:T]->(y)\<close>, or \<open>MERGE (y)-[:T]->(x)\<close> when
  \<open>flip\<close> is set.
\<close>

definition merge_rels :: "reltype \<Rightarrow> pat \<Rightarrow> pat \<Rightarrow> bool \<Rightarrow> graph \<Rightarrow> graph" where
  "merge_rels t p q flip g =
     fold (merge_rel t)
       (map (\<lambda>(x, y). if flip then (nid y, nid x) else (nid x, nid y)) (match2 p q g)) g"

section \<open>The upsert layer (Graph\_Build)\<close>

text \<open>
  The article record the four functions receive. Its fields are strings, as the scraper
  writes them; the code passes them to the database unchecked.
\<close>

record article_data =
  article_id :: ustr
  title :: ustr
  url :: ustr
  published_date :: ustr

definition article_pat :: "ustr \<Rightarrow> pat" where
  "article_pat aid = (Article, K_article_id, VStr aid)"

definition content_pat :: "ustr \<Rightarrow> pat" where
  "content_pat cid = (Content, K_content_id, VStr cid)"

definition media_pat :: "ustr \<Rightarrow> pat" where
  "media_pat name = (Media, K_name, VStr name)"

definition category_pat :: "ustr \<Rightarrow> pat" where
  "category_pat name = (Category, K_name, VStr name)"

definition article_props :: "article_data \<Rightarrow> (pkey \<times> pval) list" where
  "article_props ad =
     [(K_title, VStr (title ad)), (K_url, VStr (url ad)),
      (K_published_date, VStr (published_date ad))]"

definition create_article_node :: "graph \<Rightarrow> article_data \<Rightarrow> graph" where
  "create_article_node g ad =
     set_props (article_pat (article_id ad)) (article_props ad)
       (merge_node (article_pat (article_id ad)) g)"

text \<open>The f-string \<open>{article_id}_chunk_{i}\<close>.\<close>

definition content_id :: "ustr \<Rightarrow> nat \<Rightarrow> ustr" where
  "content_id aid i = aid @ asc ''_chunk_'' @ str_nat i"

definition content_props :: "ustr \<Rightarrow> article_data \<Rightarrow> nat \<Rightarrow> ustr \<Rightarrow> (pkey \<times> pval) list" where
  "content_props aid ad i chunk =
     [(K_chunk, VStr chunk), (K_article_id, VStr aid), (K_title, VStr (title ad)),
      (K_url, VStr (url ad)), (K_published_date, VStr (published_date ad)),
      (K_chunk_index, VInt (int i))]"

text \<open>The loop \<open>for i, chunk in enumerate(content_chunks)\<close>: two queries per chunk.\<close>

fun content_loop :: "graph \<Rightarrow> ustr \<Rightarrow> article_data \<Rightarrow> nat \<Rightarrow> ustr list \<Rightarrow> graph" where
  "content_loop g aid ad i [] = g"
| "content_loop g aid ad i (chunk # rest) =
     content_loop
       (merge_rels HAS_CHUNK (article_pat aid) (content_pat (content_id aid i)) False
          (set_props (content_pat (content_id aid i)) (content_props aid ad i chunk)
             (merge_node (content_pat (content_id aid i)) g)))
       aid ad (Suc i) rest"

definition create_content_nodes :: "graph \<Rightarrow> ustr \<Rightarrow> ustr list \<Rightarrow> article_data \<Rightarrow> graph" where
  "create_content_nodes g aid content_chunks ad = content_loop g aid ad 0 content_chunks"

definition create_media_node_and_relationship :: "graph \<Rightarrow> ustr \<Rightarrow> cell \<Rightarrow> graph" where
  "create_media_node_and_relationship g aid source =
     (if pd_isna source \<or> source = CStr [] then g
      else (case source of
              CStr s \<Rightarrow> merge_rels PUBLISHED (article_pat aid) (media_pat s) True
                         (merge_node (media_pat s) g)
            | _ \<Rightarrow> g))"

definition create_category_node_and_relationship :: "graph \<Rightarrow> ustr \<Rightarrow> cell \<Rightarrow> graph" where
  "create_category_node_and_relationship g aid category =
     (if pd_isna category \<or> category = CStr [] then g
      else (case category of
              CStr s \<Rightarrow> merge_rels BELONGS_TO (article_pat aid) (category_pat s) False
                         (merge_node (category_pat s) g)
            | _ \<Rightarrow> g))"

text \<open>
  One upsert pass for an article record and its chunk list, in the order
  \<open>build_graph_from_dataframe\<close> calls the four functions.
\<close>

definition upsert_pass :: "graph \<Rightarrow> article_data \<Rightarrow> ustr list \<Rightarrow> cell \<Rightarrow> cell \<Rightarrow> graph" where
  "upsert_pass g ad content_chunks source category =
     create_category_node_and_relationship
       (create_media_node_and_relationship
          (create_content_nodes (create_article_node g ad) (article_id ad) content_chunks ad)
          (article_id ad) source)
       (article_id ad) category"

text \<open>
  The nodes this code creates carry one label each. A graph in which no node is labelled
  both \<open>Article\<close> and \<open>Content\<close> is what the ingest builds from the empty graph and what it
  keeps.
\<close>

definition labels_apart :: "graph \<Rightarrow> bool" where
  "labels_apart g = list_all (\<lambda>n. \<not> (Article \<in> set (labels n) \<and> Content \<in> set (labels n))) (nodes g)"

subsection \<open>The pass as a sequence of clauses\<close>

text \<open>
  The three kinds of clause the upsert queries are made of, and the clause sequence of one
  pass. \<open>fin c g\<close> says that clause \<open>c\<close> finds nothing left to do in \<open>g\<close>.
\<close>

datatype clause = MergeNode pat | SetProps pat "(pkey \<times> pval) list" | MergeRels reltype pat pat bool

fun exec :: "clause \<Rightarrow> graph \<Rightarrow> graph" where
  "exec (MergeNode p) g = merge_node p g"
| "exec (SetProps p kvs) g = set_props p kvs g"
| "exec (MergeRels t p q flip) g = merge_rels t p q flip g"

fun fin :: "clause \<Rightarrow> graph \<Rightarrow> bool" where
  "fin (MergeNode p) g = list_ex (matches p) (nodes g)"
| "fin (SetProps p kvs) g =
     list_all (\<lambda>n. \<not> matches p n \<or> list_all (\<lambda>(k, v). get_prop n k = Some v) kvs) (nodes g)"
| "fin (MergeRels t p q flip) g =
     list_all (\<lambda>(a, b). has_rel t a b g)
       (map (\<lambda>(x, y). if flip then (nid y, nid x) else (nid x, nid y)) (match2 p q g))"

fun content_clauses :: "ustr \<Rightarrow> article_data \<Rightarrow> nat \<Rightarrow> ustr list \<Rightarrow> clause list" where
  "content_clauses aid ad i [] = []"
| "content_clauses aid ad i (chunk # rest) =
     [MergeNode (content_pat (content_id aid i)),
      SetProps (content_pat (content_id aid i)) (content_props aid ad i chunk),
      MergeRels HAS_CHUNK (article_pat aid) (content_pat (content_id aid i)) False]
     @ content_clauses aid ad (Suc i) rest"

definition named_clauses :: "reltype \<Rightarrow> bool \<Rightarrow> label \<Rightarrow> ustr \<Rightarrow> cell \<Rightarrow> clause list" where
  "named_clauses t flip l aid c =
     (case c of
        CStr s \<Rightarrow> (if s = [] then []
                   else [MergeNode (l, K_name, VStr s),
                         MergeRels t (article_pat aid) (l, K_name, VStr s) flip])
      | _ \<Rightarrow> [])"

definition pass_clauses :: "article_data \<Rightarrow> ustr list \<Rightarrow> cell \<Rightarrow> cell \<Rightarrow> clause list" where
  "pass_clauses ad content_chunks source category =
     [MergeNode (article_pat (article_id ad)),
      SetProps (article_pat (article_id ad)) (article_props ad)]
     @ content_clauses (article_id ad) ad 0 content_chunks
     @ named_clauses PUBLISHED True Media (article_id ad) source
     @ named_clauses BELONGS_TO False Category (article_id ad) category"

text \<open>
  When a later clause cannot undo what an earlier one has established: \<open>indep c d\<close> for a
  clause \<open>c\<close> that runs before \<open>d\<close>.
\<close>

definition apart :: "label \<Rightarrow> label \<Rightarrow> bool" where
  "apart l m = ((l = Article \<and> m = Content) \<or> (l = Content \<and> m = Article))"

definition stable :: "pat \<Rightarrow> pat \<Rightarrow> (pkey \<times> pval) list \<Rightarrow> bool" where
  "stable p q kvs = (fst (snd p) \<notin> fst ` set kvs \<or> apart (fst p) (fst q))"

definition exclusive :: "pat \<Rightarrow> pat \<Rightarrow> bool" where
  "exclusive p q =
     (apart (fst p) (fst q) \<or> (fst (snd p) = fst (snd q) \<and> snd (snd p) \<noteq> snd (snd q)))"

fun indep :: "clause \<Rightarrow> clause \<Rightarrow> bool" where
  "indep c (MergeRels t p q flip) = True"
| "indep (MergeNode p) (MergeNode q) = True"
| "indep (SetProps p kvs) (MergeNode q) = (p \<noteq> q)"
| "indep (MergeRels t p p' flip) (MergeNode q) = (p \<noteq> q \<and> p' \<noteq> q)"
| "indep (MergeNode p) (SetProps q kvs) = stable p q kvs"
| "indep (SetProps p kvs') (SetProps q kvs) = (stable p q kvs \<and> exclusive p q)"
| "indep (MergeRels t p p' flip) (SetProps q kvs) = (stable p q kvs \<and> stable p' q kvs)"

fun self_ok :: "clause \<Rightarrow> bool" where
  "self_ok (SetProps p kvs) = (fst (snd p) \<notin> fst ` set kvs \<and> distinct (map fst kvs))"
| "self_ok c = True"

text \<open>The shape of the clauses of the content loop from index \<open>i\<close> on.\<close>

definition content_clause :: "ustr \<Rightarrow> article_data \<Rightarrow> nat \<Rightarrow> clause \<Rightarrow> bool" where
  "content_clause aid ad i c =
     (\<exists>j chunk. i \<le> j \<and>
        (c = MergeNode (content_pat (content_id aid j))
         \<or> c = SetProps (content_pat (content_id aid j)) (content_props aid ad j chunk)
         \<or> c = MergeRels HAS_CHUNK (article_pat aid) (content_pat (content_id aid j)) False))"

section \<open>The batch ingest (Graph\_Build.build\_graph\_from\_dataframe)\<close>

text \<open>
  A row of the DataFrame. The four columns read with \<open>row.get(name, '')\<close> hold strings
  (\<open>None\<close> here: the column is absent, so the default \<open>''\<close> is taken); the three columns the
  code tests with \<open>pd.isna\<close> hold a \<open>cell\<close> (\<open>None\<close> here: the column is absent).
\<close>

record row =
  col_article_id :: "ustr option"
  col_title :: "ustr option"
  col_url :: "ustr option"
  col_published_date :: "ustr option"
  col_content :: "cell option"
  col_source :: "cell option"
  col_category :: "cell option"

definition row_get :: "ustr option \<Rightarrow> ustr" where
  "row_get c = (case c of None \<Rightarrow> [] | Some s \<Rightarrow> s)"

definition row_article_data :: "row \<Rightarrow> article_data" where
  "row_article_data r =
     \<lparr>article_id = row_get (col_article_id r), title = row_get (col_title r),
      url = row_get (col_url r), published_date = row_get (col_published_date r)\<rparr>"

text \<open>
  The index label of a row as \<open>df.iterrows()\<close> yields it: an integer (0, 1, ... for the
  \<open>RangeIndex\<close> that \<open>read_excel\<close> gives) or a string. The loop prints the label in the
  error line and computes \<open>idx + 1\<close> for the progress line, which raises \<open>TypeError\<close> for
  a string. Labels of other types (floats, timestamps, tuples) are left out.
\<close>

datatype index_label = IxInt int | IxStr ustr

text \<open>
  The four calls of \<open>session.execute_write\<close> in the \<open>try\<close> body. Each call runs its function
  in a transaction of its own: it commits what the function wrote, or it raises (the database
  refuses the query, as it does for a null merge key, or the connection fails) and the
  transaction is rolled back. Which calls raise is a parameter of the model: \<open>raises w\<close> says
  that the call for \<open>w\<close> raises.
\<close>

datatype db_write = W_article | W_content | W_media | W_category

datatype row_exception = ChunkError py_error | Neo4jError | LabelTypeError

definition execute_write ::
  "(db_write \<Rightarrow> bool) \<Rightarrow> db_write \<Rightarrow> (graph \<Rightarrow> graph) \<Rightarrow> graph \<Rightarrow> row_exception + graph" where
  "execute_write raises w work g = (if raises w then Inl Neo4jError else Inr (work g))"

text \<open>
  The statements of the \<open>try\<close> body run in order; the first that raises ends the row, and what
  the calls before it committed stays in the graph.
\<close>

fun run_steps :: "(graph \<Rightarrow> row_exception + graph) list \<Rightarrow> graph \<Rightarrow> graph \<times> row_exception option" where
  "run_steps [] g = (g, None)"
| "run_steps (s # ss) g =
     (case s g of
        Inl e \<Rightarrow> (g, Some e)
      | Inr g' \<Rightarrow> run_steps ss g')"

definition content_step ::
  "(db_write \<Rightarrow> bool) \<Rightarrow> row \<Rightarrow> article_data \<Rightarrow> int \<Rightarrow> int \<Rightarrow> graph \<Rightarrow> row_exception + graph" where
  "content_step raises r ad chunk_size overlap g =
     (case col_content r of
        None \<Rightarrow> Inr g
      | Some c \<Rightarrow>
          if \<not> pd_isna c \<and> c \<noteq> CStr [] then
            (case chunk_text c chunk_size overlap of
               Inl e \<Rightarrow> Inl (ChunkError e)
             | Inr content_chunks \<Rightarrow>
                 if content_chunks \<noteq> []
                 then execute_write raises W_content
                        (\<lambda>g. create_content_nodes g (article_id ad) content_chunks ad) g
                 else Inr g)
          else Inr g)"

definition source_step ::
  "(db_write \<Rightarrow> bool) \<Rightarrow> row \<Rightarrow> article_data \<Rightarrow> graph \<Rightarrow> row_exception + graph" where
  "source_step raises r ad g =
     (case col_source r of
        None \<Rightarrow> Inr g
      | Some s \<Rightarrow>
          execute_write raises W_media
            (\<lambda>g. create_media_node_and_relationship g (article_id ad) s) g)"

definition category_step ::
  "(db_write \<Rightarrow> bool) \<Rightarrow> row \<Rightarrow> article_data \<Rightarrow> graph \<Rightarrow> row_exception + graph" where
  "category_step raises r ad g =
     (case col_category r of
        None \<Rightarrow> Inr g
      | Some c \<Rightarrow>
          execute_write raises W_category
            (\<lambda>g. create_category_node_and_relationship g (article_id ad) c) g)"

text \<open>
  The writes of the \<open>try\<close> block for one row: the graph reached and the exception, if any.
\<close>

definition ingest_row ::
  "(db_write \<Rightarrow> bool) \<Rightarrow> graph \<Rightarrow> row \<Rightarrow> int \<Rightarrow> int \<Rightarrow> graph \<times> row_exception option" where
  "ingest_row raises g r chunk_size overlap =
     (let ad = row_article_data r
      in run_steps
           [execute_write raises W_article (\<lambda>g. create_article_node g ad),
            content_step raises r ad chunk_size overlap,
            source_step raises r ad,
            category_step raises r ad] g)"

text \<open>
  What the loop prints for one row: the error line, naming the index label, when a statement
  of the \<open>try\<close> body raised; otherwise the progress line when \<open>(idx + 1) % 10 == 0\<close>, a test
  that is the last statement of the \<open>try\<close> body and itself raises for a label that is no
  number. The function returns nothing.
\<close>

datatype log_line = Progress int nat | RowError index_label row_exception

definition row_lines :: "index_label \<Rightarrow> nat \<Rightarrow> row_exception option \<Rightarrow> log_line list" where
  "row_lines idx n err =
     (case err of
        Some e \<Rightarrow> [RowError idx e]
      | None \<Rightarrow>
          (case idx of
             IxInt i \<Rightarrow> if (i + 1) mod 10 = 0 then [Progress (i + 1) n] else []
           | IxStr s \<Rightarrow> [RowError idx LabelTypeError]))"

text \<open>
  The loop over \<open>df.iterrows()\<close>. The frame is the list of its rows with their index labels;
  \<open>p\<close> counts the rows from the first, and \<open>faults p\<close> tells which writes of the row at position
  \<open>p\<close> raise.
\<close>

fun build_rows ::
  "(nat \<Rightarrow> db_write \<Rightarrow> bool) \<Rightarrow> graph \<Rightarrow> nat \<Rightarrow> nat \<Rightarrow> (index_label \<times> row) list \<Rightarrow> int \<Rightarrow> int
     \<Rightarrow> graph \<times> log_line list" where
  "build_rows faults g p n [] chunk_size overlap = (g, [])"
| "build_rows faults g p n ((idx, r) # rest) chunk_size overlap =
     (case ingest_row (faults p) g r chunk_size overlap of
        (g', err) \<Rightarrow>
          (case build_rows faults g' (Suc p) n rest chunk_size overlap of
             (g'', out) \<Rightarrow> (g'', row_lines idx n err @ out)))"

definition build_graph_from_dataframe ::
  "(nat \<Rightarrow> db_write \<Rightarrow> bool) \<Rightarrow> graph \<Rightarrow> (index_label \<times> row) list \<Rightarrow> int \<Rightarrow> int
     \<Rightarrow> graph \<times> log_line list" where
  "build_graph_from_dataframe faults g df chunk_size overlap =
     build_rows faults g 0 (length df) df chunk_size overlap"

text \<open>A store none of whose writes raises.\<close>

definition no_faults :: "nat \<Rightarrow> db_write \<Rightarrow> bool" where
  "no_faults = (\<lambda>p w. False)"

text \<open>
  The rows whose processing raises, stated apart from the loop: \<open>chunk_text\<close> raises on a
  non-empty string when the stride is zero; a write that is called raises; the progress test
  raises on a label that is no number. Then the index labels of the error lines printed.
\<close>

definition chunker_raises :: "row \<Rightarrow> int \<Rightarrow> int \<Rightarrow> bool" where
  "chunker_raises r chunk_size overlap =
     (case col_content r of
        Some (CStr s) \<Rightarrow> s \<noteq> [] \<and> chunk_size - overlap = 0
      | _ \<Rightarrow> False)"

definition row_chunks :: "row \<Rightarrow> int \<Rightarrow> int \<Rightarrow> ustr list" where
  "row_chunks r chunk_size overlap =
     (case col_content r of
        None \<Rightarrow> []
      | Some c \<Rightarrow> (case chunk_text c chunk_size overlap of Inl e \<Rightarrow> [] | Inr chunks \<Rightarrow> chunks))"

definition cell_of :: "cell option \<Rightarrow> cell" where
  "cell_of c = (case c of None \<Rightarrow> CNone | Some x \<Rightarrow> x)"

definition content_raises :: "(db_write \<Rightarrow> bool) \<Rightarrow> row \<Rightarrow> int \<Rightarrow> int \<Rightarrow> bool" where
  "content_raises raises r chunk_size overlap =
     (chunker_raises r chunk_size overlap
      \<or> (row_chunks r chunk_size overlap \<noteq> [] \<and> raises W_content))"

definition source_raises :: "(db_write \<Rightarrow> bool) \<Rightarrow> row \<Rightarrow> bool" where
  "source_raises raises r = (col_source r \<noteq> None \<and> raises W_media)"

definition category_raises :: "(db_write \<Rightarrow> bool) \<Rightarrow> row \<Rightarrow> bool" where
  "category_raises raises r = (col_category r \<noteq> None \<and> raises W_category)"

definition label_raises :: "index_label \<Rightarrow> bool" where
  "label_raises idx = (case idx of IxInt i \<Rightarrow> False | IxStr s \<Rightarrow> True)"

definition row_raises :: "(db_write \<Rightarrow> bool) \<Rightarrow> index_label \<Rightarrow> row \<Rightarrow> int \<Rightarrow> int \<Rightarrow> bool" where
  "row_raises raises idx r chunk_size overlap =
     (raises W_article \<or> content_raises raises r chunk_size overlap \<or> source_raises raises r
      \<or> category_raises raises r \<or> label_raises idx)"

definition error_rows :: "log_line list \<Rightarrow> index_label list" where
  "error_rows out = concat (map (\<lambda>l. case l of RowError i e \<Rightarrow> [i] | Progress i n \<Rightarrow> []) out)"

definition raising_rows ::
  "(nat \<Rightarrow> db_write \<Rightarrow> bool) \<Rightarrow> nat \<Rightarrow> (index_label \<times> row) list \<Rightarrow> int \<Rightarrow> int \<Rightarrow> index_label list" where
  "raising_rows faults p df chunk_size overlap =
     map (\<lambda>(q, idx, r). idx)
       (filter (\<lambda>(q, idx, r). row_raises (faults q) idx r chunk_size overlap) (enumerate p df))"

text \<open>
  The clauses one row runs, those of the pass up to the first statement that raises, and the
  clauses of the whole batch. A column that is absent is skipped like a missing value.
\<close>

definition row_clauses :: "(db_write \<Rightarrow> bool) \<Rightarrow> row \<Rightarrow> int \<Rightarrow> int \<Rightarrow> clause list" where
  "row_clauses raises r chunk_size overlap =
     (let ad = row_article_data r in
      if raises W_article then []
      else [MergeNode (article_pat (article_id ad)), SetProps (article_pat (article_id ad)) (article_props ad)]
           @ (if content_raises raises r chunk_size overlap then []
              else content_clauses (article_id ad) ad 0 (row_chunks r chunk_size overlap)
                   @ (if source_raises raises r then []
                      else named_clauses PUBLISHED True Media (article_id ad) (cell_of (col_source r))
                           @ (if category_raises raises r then []
                              else named_clauses BELONGS_TO False Category (article_id ad)
                                     (cell_of (col_category r))))))"

definition batch_clauses ::
  "(nat \<Rightarrow> db_write \<Rightarrow> bool) \<Rightarrow> nat \<Rightarrow> (index_label \<times> row) list \<Rightarrow> int \<Rightarrow> int \<Rightarrow> clause list" where
  "batch_clauses faults p df chunk_size overlap =
     concat (map (\<lambda>(q, idx, r). row_clauses (faults q) r chunk_size overlap) (enumerate p df))"

text \<open>A row as the scraper writes it, with the given identifier and body.\<close>

definition sample_row :: "ustr \<Rightarrow> ustr \<Rightarrow> row" where
  "sample_row aid body =
     \<lparr>col_article_id = Some aid, col_title = Some (asc ''T''), col_url = Some (asc ''U''),
      col_published_date = Some (asc ''D''), col_content = Some (CStr body),
      col_source = Some (CStr (asc ''M'')), col_category = Some (CStr [51221, 52824])\<rparr>"

section \<open>The embedding backfill (initialize\_graphrag)\<close>

text \<open>
  \<open>MATCH (c:Content) WHERE c.embedding IS NULL RETURN elementId(c) AS id, c.chunk AS text\<close>,
  then one embedding call and one \<open>SET\<close> by identity for each record. The embedder is an
  external service: a parameter that yields a vector or raises (\<open>None\<close>). The result is the
  graph and the identities of the nodes for which an error line was printed. The progress lines
  are left out. The loops in \<open>Tools_Retriever.py\<close> and \<open>app.py\<close> are the same.
\<close>

definition backfill_records :: "graph \<Rightarrow> (nat \<times> pval option) list" where
  "backfill_records g =
     map (\<lambda>n. (nid n, get_prop n K_chunk))
       (filter (\<lambda>n. Content \<in> set (labels n) \<and> get_prop n K_embedding = None) (nodes g))"

definition set_embedding :: "nat \<Rightarrow> real list \<Rightarrow> graph \<Rightarrow> graph" where
  "set_embedding i vec g =
     g\<lparr>nodes := map (\<lambda>n. if nid n = i then set_node_props [(K_embedding, VVec vec)] n else n)
                  (nodes g)\<rparr>"

fun backfill_loop ::
  "(pval option \<Rightarrow> real list option) \<Rightarrow> (nat \<times> pval option) list \<Rightarrow> graph \<Rightarrow> graph \<times> nat list" where
  "backfill_loop embedder [] g = (g, [])"
| "backfill_loop embedder ((node_id, txt) # records) g =
     (case embedder txt of
        None \<Rightarrow> (case backfill_loop embedder records g of (g', errs) \<Rightarrow> (g', node_id # errs))
      | Some vec \<Rightarrow> backfill_loop embedder records (set_embedding node_id vec g))"

definition backfill :: "(pval option \<Rightarrow> real list option) \<Rightarrow> graph \<Rightarrow> graph \<times> nat list" where
  "backfill embedder g = backfill_loop embedder (backfill_records g) g"

text \<open>
  A node has an embedding. The identities of the nodes are those the store hands out: no two
  nodes share one, and each is below the next one to be handed out.
\<close>

definition embedded :: "node \<Rightarrow> bool" where
  "embedded n = (get_prop n K_embedding \<noteq> None)"

definition fresh_ids :: "graph \<Rightarrow> bool" where
  "fresh_ids g = (distinct (map nid (nodes g)) \<and> list_all (\<lambda>n. nid n < next_id g) (nodes g))"

text \<open>
  A graph to run the pass on: one Article node, a Content node that has its embedding, and two
  Content nodes that have none; and an embedder that yields the code points of the text, so
  that different texts get different vectors.
\<close>

definition three_fragment_graph :: graph where
  "three_fragment_graph =
     \<lparr>nodes =
        [\<lparr>nid = 0, labels = [Article], props = [(K_article_id, VStr [65])]\<rparr>,
         \<lparr>nid = 1, labels = [Content],
           props = [(K_content_id, VStr [65, 48]), (K_chunk, VStr [97]), (K_embedding, VVec [5])]\<rparr>,
         \<lparr>nid = 2, labels = [Content],
           props = [(K_content_id, VStr [65, 49]), (K_chunk, VStr [98])]\<rparr>,
         \<lparr>nid = 3, labels = [Content],
           props = [(K_content_id, VStr [65, 50]), (K_chunk, VStr [99, 100])]\<rparr>],
      rels = [\<lparr>rtype = HAS_CHUNK, src = 0, dst = 1\<rparr>, \<lparr>rtype = HAS_CHUNK, src = 0, dst = 2\<rparr>,
              \<lparr>rtype = HAS_CHUNK, src = 0, dst = 3\<rparr>],
      next_id = 4\<rparr>"

definition codepoint_embedder :: "pval option \<Rightarrow> real list option" where
  "codepoint_embedder t =
     (case t of
        Some (VStr s) \<Rightarrow> Some (map real_of_int s)
      | _ \<Rightarrow> None)"

section \<open>The graph-expanded retrieval query\<close>

text \<open>
  The \<open>retrieval_query\<close> of the VectorCypher retriever, run on the seeds \<open>(node, score)\<close> the
  vector index yields. \<open>app.py\<close> has one more \<open>OPTIONAL MATCH\<close> (the publisher) than
  \<open>Tools_Retriever.py\<close>; \<open>with_media\<close> selects it.
\<close>

definition opt_rows :: "'a list \<Rightarrow> 'a option list" where
  "opt_rows xs = (if xs = [] then [None] else map Some xs)"

definition out_nodes :: "reltype \<Rightarrow> node \<Rightarrow> label \<Rightarrow> graph \<Rightarrow> node list" where
  "out_nodes t a l g =
     concat (map (\<lambda>r. filter (\<lambda>n. nid n = dst r \<and> l \<in> set (labels n)) (nodes g))
               (filter (\<lambda>r. rtype r = t \<and> src r = nid a) (rels g)))"

definition in_nodes :: "reltype \<Rightarrow> node \<Rightarrow> label \<Rightarrow> graph \<Rightarrow> node list" where
  "in_nodes t b l g =
     concat (map (\<lambda>r. filter (\<lambda>n. nid n = src r \<and> l \<in> set (labels n)) (nodes g))
               (filter (\<lambda>r. rtype r = t \<and> dst r = nid b) (rels g)))"

type_synonym binding = "node \<times> real \<times> node \<times> node option \<times> node option \<times> node option"

definition expand :: "bool \<Rightarrow> graph \<Rightarrow> nat \<times> real \<Rightarrow> binding list" where
  "expand with_media g seed =
     (case seed of (i, score) \<Rightarrow>
        concat (map (\<lambda>content.
          concat (map (\<lambda>article.
            concat (map (\<lambda>category.
              concat (map (\<lambda>media.
                map (\<lambda>related. (content, score, article, category, media, related))
                  (case category of
                     None \<Rightarrow> [None]
                   | Some c \<Rightarrow>
                       opt_rows (filter (\<lambda>x. nid x \<noteq> nid article)
                                   (in_nodes BELONGS_TO c Article g))))
                (if with_media then opt_rows (in_nodes PUBLISHED article Media g) else [None])))
              (opt_rows (out_nodes BELONGS_TO article Category g))))
            (in_nodes HAS_CHUNK content Article g)))
          (filter (\<lambda>n. nid n = i) (nodes g))))"

text \<open>Reading a property of a variable that an \<open>OPTIONAL MATCH\<close> left null gives null.\<close>

definition opt_prop :: "node option \<Rightarrow> pkey \<Rightarrow> pval option" where
  "opt_prop n k = (case n of None \<Rightarrow> None | Some m \<Rightarrow> get_prop m k)"

text \<open>
  The map \<open>{article_id: ..., title: ..., url: ..., published_date: ...}\<close> of a related
  article. It is a map, and not null, also when \<open>related_article\<close> is null: \<open>collect\<close> skips
  null values only.
\<close>

type_synonym related = "pval option \<times> pval option \<times> pval option \<times> pval option"

definition related_map :: "node option \<Rightarrow> related" where
  "related_map n =
     (opt_prop n K_article_id, opt_prop n K_title, opt_prop n K_url, opt_prop n K_published_date)"

record hit =
  hit_content_id :: "pval option"
  hit_chunk :: "pval option"
  hit_content_title :: "pval option"
  hit_article_id :: "pval option"
  hit_article_title :: "pval option"
  hit_article_url :: "pval option"
  hit_article_date :: "pval option"
  hit_category_name :: "pval option"
  hit_media_name :: "pval option"
  hit_similarity_score :: real

text \<open>The grouping key of the \<open>RETURN\<close>: every column that is not an aggregate.\<close>

definition hit_of :: "binding \<Rightarrow> hit" where
  "hit_of b =
     (case b of (content, score, article, category, media, related) \<Rightarrow>
        \<lparr>hit_content_id = get_prop content K_content_id, hit_chunk = get_prop content K_chunk,
         hit_content_title = get_prop content K_title,
         hit_article_id = get_prop article K_article_id, hit_article_title = get_prop article K_title,
         hit_article_url = get_prop article K_url,
         hit_article_date = get_prop article K_published_date,
         hit_category_name = opt_prop category K_name, hit_media_name = opt_prop media K_name,
         hit_similarity_score = score\<rparr>)"

text \<open>Grouping and \<open>DISTINCT\<close>, both in order of first appearance.\<close>

definition group_rows :: "('k \<times> 'v) list \<Rightarrow> ('k \<times> 'v list) list" where
  "group_rows rows =
     foldl (\<lambda>acc (k, v).
              if k \<in> fst ` set acc
              then map (\<lambda>(k', vs). if k' = k then (k', vs @ [v]) else (k', vs)) acc
              else acc @ [(k, [v])]) [] rows"

definition uniq :: "'a list \<Rightarrow> 'a list" where
  "uniq xs = foldl (\<lambda>acc x. if x \<in> set acc then acc else acc @ [x]) [] xs"

definition retrieval_query :: "bool \<Rightarrow> graph \<Rightarrow> (nat \<times> real) list \<Rightarrow> (hit \<times> related list) list" where
  "retrieval_query with_media g seeds =
     map (\<lambda>(h, rs). (h, take 5 (uniq rs)))
       (group_rows (map (\<lambda>b. (hit_of b, related_map (snd (snd (snd (snd (snd b)))))))
                      (concat (map (expand with_media g) seeds))))"

text \<open>The graph after the ingest of one sample article with the body \<open>ab\<close>.\<close>

definition one_article_graph :: graph where
  "one_article_graph =
     \<lparr>nodes =
        [\<lparr>nid = 0, labels = [Article],
           props = [(K_article_id, VStr [65]), (K_title, VStr [84]), (K_url, VStr [85]),
                    (K_published_date, VStr [68])]\<rparr>,
         \<lparr>nid = 1, labels = [Content],
           props = [(K_content_id, VStr [65, 95, 99, 104, 117, 110, 107, 95, 48]),
                    (K_chunk, VStr [97, 98]), (K_article_id, VStr [65]), (K_title, VStr [84]),
                    (K_url, VStr [85]), (K_published_date, VStr [68]), (K_chunk_index, VInt 0)]\<rparr>,
         \<lparr>nid = 2, labels = [Media], props = [(K_name, VStr [77])]\<rparr>,
         \<lparr>nid = 3, labels = [Category], props = [(K_name, VStr [51221, 52824])]\<rparr>],
      rels = [\<lparr>rtype = HAS_CHUNK, src = 0, dst = 1\<rparr>, \<lparr>rtype = PUBLISHED, src = 2, dst = 0\<rparr>,
              \<lparr>rtype = BELONGS_TO, src = 0, dst = 3\<rparr>],
      next_id = 4\<rparr>"

section \<open>The search handler (app.search) and its icons\<close>

text \<open>
  \<open>get_icon_for_category\<close>: a dictionary with six entries and a default. The keys are the
  Korean names of politics, economy, society, life/culture, IT/science and world, the values
  emoji, all as code points.
\<close>

definition icons :: "(ustr \<times> ustr) list" where
  "icons =
     [([51221, 52824], [127963, 65039]),
      ([44221, 51228], [128188]),
      ([49324, 54924], [128101]),
      ([49373, 54876, 47, 47928, 54868], [127917]),
      ([73, 84, 47, 44284, 54617], [128187]),
      ([49464, 44228], [127757])]"

definition default_icon :: ustr where
  "default_icon = [128240]"

definition get_icon_for_category :: "ustr \<Rightarrow> ustr" where
  "get_icon_for_category category =
     (case map_of icons category of Some glyph \<Rightarrow> glyph | None \<Rightarrow> default_icon)"

text \<open>
  The values \<open>json.loads\<close> returns (numbers as integers). A dictionary keeps its insertion
  order.
\<close>

datatype json = JNull | JBool bool | JInt int | JStr ustr | JList "json list"
  | JDict "(ustr \<times> json) list"

datatype py_exc = AttributeError | TypeError

text \<open>\<open>x.get(key, default)\<close>: only a dictionary has the method.\<close>

definition json_get :: "json \<Rightarrow> ustr \<Rightarrow> json \<Rightarrow> py_exc + json" where
  "json_get x key dflt =
     (case x of
        JDict d \<Rightarrow> Inr (case map_of d key of Some v \<Rightarrow> v | None \<Rightarrow> dflt)
      | _ \<Rightarrow> Inl AttributeError)"

text \<open>\<open>for y in x\<close>: a list gives its elements, a dictionary its keys, a string its characters.\<close>

definition json_iter :: "json \<Rightarrow> py_exc + json list" where
  "json_iter x =
     (case x of
        JList xs \<Rightarrow> Inr xs
      | JDict d \<Rightarrow> Inr (map (\<lambda>(k, v). JStr k) d)
      | JStr s \<Rightarrow> Inr (map (\<lambda>c. JStr [c]) s)
      | _ \<Rightarrow> Inl TypeError)"

text \<open>
  \<open>get_icon_for_category\<close> on whatever the source entry holds under \<open>category\<close>: a list or a
  dictionary cannot be a dictionary key, anything else that is not one of the six strings gets
  the default.
\<close>

definition icon_for :: "json \<Rightarrow> py_exc + ustr" where
  "icon_for c =
     (case c of
        JStr s \<Rightarrow> Inr (get_icon_for_category s)
      | JList _ \<Rightarrow> Inl TypeError
      | JDict _ \<Rightarrow> Inl TypeError
      | _ \<Rightarrow> Inr default_icon)"

record source =
  source_id :: int
  shortName :: json
  source_title :: json
  source_category :: json
  source_date :: json
  source_url :: json
  source_summary :: json
  icon :: ustr

definition dict_get :: "(ustr \<times> json) list \<Rightarrow> ustr \<Rightarrow> json \<Rightarrow> json" where
  "dict_get d key dflt = (case map_of d key of Some v \<Rightarrow> v | None \<Rightarrow> dflt)"

definition convert_source :: "int \<Rightarrow> json \<Rightarrow> py_exc + source" where
  "convert_source sid source_data =
     (case source_data of
        JDict d \<Rightarrow>
          (case icon_for (dict_get d (asc ''category'') (JStr [])) of
             Inl e \<Rightarrow> Inl e
           | Inr glyph \<Rightarrow>
               Inr \<lparr>source_id = sid,
                    shortName = dict_get d (asc ''media'') (JStr (asc ''unknown'')),
                    source_title = dict_get d (asc ''title'') (JStr []),
                    source_category = dict_get d (asc ''category'') (JStr [44592, 53440]),
                    source_date = dict_get d (asc ''date'') (JStr []),
                    source_url = dict_get d (asc ''url'') (JStr []),
                    source_summary = dict_get d (asc ''summary'') (JStr []),
                    icon = glyph\<rparr>)
      | _ \<Rightarrow> Inl AttributeError)"

text \<open>The inner loop over \<open>section.get("sources", [])\<close>, threading \<open>source_id\<close>.\<close>

fun convert_sources :: "int \<Rightarrow> json list \<Rightarrow> py_exc + (source list \<times> int)" where
  "convert_sources sid [] = Inr ([], sid)"
| "convert_sources sid (source_data # rest) =
     (case convert_source sid source_data of
        Inl e \<Rightarrow> Inl e
      | Inr s \<Rightarrow>
          (case convert_sources (sid + 1) rest of
             Inl e \<Rightarrow> Inl e
           | Inr (ss, sid') \<Rightarrow> Inr (s # ss, sid')))"

text \<open>
  The outer loop over the sections: each section gets \<open>sourceIds\<close> and loses \<open>sources\<close>; the
  converted sources are appended to the flat list.
\<close>

fun convert_sections :: "int \<Rightarrow> json list \<Rightarrow> py_exc + (json list \<times> source list)" where
  "convert_sections sid [] = Inr ([], [])"
| "convert_sections sid (section' # rest) =
     (case section' of
        JDict d \<Rightarrow>
          (case json_iter (dict_get d (asc ''sources'') (JList [])) of
             Inl e \<Rightarrow> Inl e
           | Inr items \<Rightarrow>
               (case convert_sources sid items of
                  Inl e \<Rightarrow> Inl e
                | Inr (ss, sid') \<Rightarrow>
                    (case convert_sections sid' rest of
                       Inl e \<Rightarrow> Inl e
                     | Inr (secs, others) \<Rightarrow>
                         Inr (JDict (AList.delete (asc ''sources'')
                                       (AList.update (asc ''sourceIds'')
                                          (JList (map (\<lambda>s. JInt (source_id s)) ss)) d)) # secs,
                              ss @ others))))
      | _ \<Rightarrow> Inl AttributeError)"

text \<open>Removing a surrounding markdown code fence from the stripped answer.\<close>

fun split_on :: "int \<Rightarrow> ustr \<Rightarrow> ustr list" where
  "split_on sep [] = [[]]"
| "split_on sep (c # cs) =
     (if c = sep then [] # split_on sep cs
      else (case split_on sep cs of l # ls \<Rightarrow> (c # l) # ls | [] \<Rightarrow> [[c]]))"

fun join_with :: "int \<Rightarrow> ustr list \<Rightarrow> ustr" where
  "join_with sep [] = []"
| "join_with sep [l] = l"
| "join_with sep (l # ls) = l @ sep # join_with sep ls"

definition startswith :: "ustr \<Rightarrow> ustr \<Rightarrow> bool" where
  "startswith s p = (take (length p) s = p)"

definition strip_fences :: "ustr \<Rightarrow> ustr" where
  "strip_fences answer =
     (let answer_text = strip answer
      in if startswith answer_text (asc ''```'') then
           (let lines = split_on 10 answer_text;
                lines1 = (if startswith (hd lines) (asc ''```'') then tl lines else lines);
                lines2 = (if lines1 \<noteq> [] \<and> strip (last lines1) = asc ''```''
                          then butlast lines1 else lines1)
            in strip (join_with 10 lines2))
         else answer_text)"

text \<open>
  The handler from the generated answer on (\<open>rag.search\<close> is an external service).
  \<open>json.loads\<close> is a parameter: it yields a value or raises (\<open>None\<close>). Every exception in the
  body is turned into an HTTP error with status 500. What the web framework does with the
  returned dictionary afterwards (the check against the response model) is not part of the
  handler.
\<close>

record response =
  sections :: json
  sources :: "source list"

datatype http_error = HTTPException int

definition fallback_result :: "ustr \<Rightarrow> json" where
  "fallback_result answer =
     JDict [(asc ''sections'',
             JList [JDict [(asc ''title'', JStr [44160, 49353, 32, 44208, 44284]),
                           (asc ''content'', JStr answer),
                           (asc ''sources'', JList [])]])]"

definition build_response :: "json \<Rightarrow> py_exc + response" where
  "build_response parsed_result =
     (case json_get parsed_result (asc ''sections'') (JList []) of
        Inl e \<Rightarrow> Inl e
      | Inr secs \<Rightarrow>
          (case json_iter secs of
             Inl e \<Rightarrow> Inl e
           | Inr items \<Rightarrow>
               (case convert_sections 1 items of
                  Inl e \<Rightarrow> Inl e
                | Inr (secs', srcs) \<Rightarrow>
                    Inr \<lparr>sections = (case secs of JList _ \<Rightarrow> JList secs' | _ \<Rightarrow> secs),
                         sources = srcs\<rparr>)))"

definition search :: "(ustr \<Rightarrow> json option) \<Rightarrow> ustr \<Rightarrow> http_error + response" where
  "search loads answer =
     (let parsed_result = (case loads (strip_fences answer) of
                             Some j \<Rightarrow> j
                           | None \<Rightarrow> fallback_result answer)
      in case build_response parsed_result of
           Inl e \<Rightarrow> Inl (HTTPException 500)
         | Inr r \<Rightarrow> Inr r)"

section \<open>Properties of the chunker\<close>

lemma strip_Nil [simp]: "strip [] = []"
  by (simp add: strip_def)

lemma strip_ends:
  assumes "strip s \<noteq> []"
  shows "\<not> isspace (hd (strip s))" and "\<not> isspace (last (strip s))"
proof -
  let ?d = "dropWhile isspace s"
  let ?r = "dropWhile isspace (rev ?d)"
  from assms have r: "?r \<noteq> []" by (simp add: strip_def)
  then have "\<not> isspace (hd ?r)" by (rule hd_dropWhile)
  then show "\<not> isspace (last (strip s))" using r by (simp add: strip_def last_rev)
  have "?d = [] \<Longrightarrow> ?r = []" by (simp only: rev.simps dropWhile.simps)
  with r have d: "?d \<noteq> []" by blast
  then have hd: "\<not> isspace (hd ?d)" by (rule hd_dropWhile)
  have "\<exists>zs. rev ?d = zs @ ?r" by (metis takeWhile_dropWhile_id)
  then obtain zs where "rev ?d = zs @ ?r" ..
  then have "?d = rev ?r @ rev zs" by (metis rev_append rev_rev_ident)
  then have "hd ?d = hd (rev ?r)" using r by (metis hd_append2 rev_is_Nil_conv)
  with hd show "\<not> isspace (hd (strip s))" by (simp add: strip_def)
qed

lemma strip_id:
  assumes "s = [] \<or> (\<not> isspace (hd s) \<and> \<not> isspace (last s))"
  shows "strip s = s"
proof (cases s)
  case Nil
  then show ?thesis by simp
next
  case (Cons a as)
  with assms have h: "\<not> isspace a" and l: "\<not> isspace (last s)" by auto
  from h Cons have "dropWhile isspace s = s" by simp
  moreover have "\<not> isspace (hd (rev s))" using l by (simp add: hd_rev)
  then have "dropWhile isspace (rev s) = rev s"
    by (simp only: dropWhile_eq_self_iff) blast
  ultimately show ?thesis by (simp add: strip_def)
qed

lemma strip_strip: "strip (strip s) = strip s"
  by (rule strip_id) (use strip_ends in blast)

lemma strip_no_space: "\<forall>c\<in>set s. \<not> isspace c \<Longrightarrow> strip s = s"
  by (rule strip_id) (cases s, auto)

lemma chunk_loop_windows:
  "chunk_loop t cs st i = map strip (filter (\<lambda>w. strip w \<noteq> []) (windows t cs st i))"
proof (induction t cs st i rule: chunk_loop.induct)
  case (1 t cs st i)
  show ?case
  proof (cases "0 < st \<and> i < int (length t)")
    case True
    with 1 have "chunk_loop t cs st (i + st) =
        map strip (filter (\<lambda>w. strip w \<noteq> []) (windows t cs st (i + st)))"
      by simp
    with True show ?thesis
      by (subst chunk_loop.simps, subst windows.simps) (simp add: Let_def)
  next
    case False
    then show ?thesis by (subst chunk_loop.simps, subst windows.simps) auto
  qed
qed

lemma chunk_loop_trimmed:
  "f \<in> set (chunk_loop t cs st i) \<Longrightarrow> f \<noteq> [] \<and> strip f = f"
  by (auto simp: chunk_loop_windows strip_strip)

lemma slice_window:
  assumes "0 \<le> i" "i < int (length t)" "0 \<le> cs"
  shows "py_slice t i (i + cs) = take (nat cs) (drop (nat i) t)"
proof (cases "i + cs \<le> int (length t)")
  case True
  with assms show ?thesis by (simp add: py_slice_def Let_def)
next
  case False
  with assms have "length (drop (nat i) t) \<le> nat cs" by simp
  then have "take (nat cs) (drop (nat i) t) = drop (nat i) t" by simp
  moreover have "take (nat (int (length t) - i)) (drop (nat i) t) = drop (nat i) t"
    using assms by simp
  ultimately show ?thesis using assms False by (simp add: py_slice_def Let_def)
qed

lemma windows_cover:
  "0 \<le> i \<Longrightarrow> 0 < st \<Longrightarrow> st \<le> cs \<Longrightarrow>
   concat (map (take (nat st)) (windows t cs st i)) = drop (nat i) t"
proof (induction t cs st i rule: windows.induct)
  case (1 t cs st i)
  show ?case
  proof (cases "i < int (length t)")
    case True
    have sl: "py_slice t i (i + cs) = take (nat cs) (drop (nat i) t)"
      using 1 True by (intro slice_window) auto
    have w: "windows t cs st i = py_slice t i (i + cs) # windows t cs st (i + st)"
      using True 1(3) by (subst windows.simps) simp
    have a: "take (nat st) (py_slice t i (i + cs)) = take (nat st) (drop (nat i) t)"
      using 1(3,4) by (simp add: sl min_def)
    have "drop (nat (i + st)) t = drop (nat st) (drop (nat i) t)"
      using 1(2,3) by (simp add: nat_add_distrib add.commute)
    moreover have "concat (map (take (nat st)) (windows t cs st (i + st))) = drop (nat (i + st)) t"
      using 1 True by auto
    ultimately have b:
      "concat (map (take (nat st)) (windows t cs st (i + st))) = drop (nat st) (drop (nat i) t)"
      by (simp only:)
    show ?thesis
      unfolding w by (simp only: list.map concat.simps a b append_take_drop_id)
  next
    case False
    then show ?thesis using 1(2) by (subst windows.simps) simp
  qed
qed

lemma windows_no_space:
  assumes "\<forall>c\<in>set t. \<not> isspace c" "0 < cs" "0 \<le> i"
  shows "map strip (filter (\<lambda>w. strip w \<noteq> []) (windows t cs st i)) = windows t cs st i"
  using assms
proof (induction t cs st i rule: windows.induct)
  case (1 t cs st i)
  show ?case
  proof (cases "0 < st \<and> i < int (length t)")
    case True
    have sl: "py_slice t i (i + cs) = take (nat cs) (drop (nat i) t)"
      using 1 True by (intro slice_window) auto
    have "set (take (nat cs) (drop (nat i) t)) \<subseteq> set t"
      by (meson set_take_subset set_drop_subset subset_trans)
    then have s: "strip (py_slice t i (i + cs)) = py_slice t i (i + cs)"
      using 1(2) unfolding sl by (intro strip_no_space) auto
    have ne: "py_slice t i (i + cs) \<noteq> []"
      using True 1(3,4) unfolding sl by auto
    have "map strip (filter (\<lambda>w. strip w \<noteq> []) (windows t cs st (i + st))) = windows t cs st (i + st)"
      using 1 True by auto
    then show ?thesis using True s ne by (subst (1 2) windows.simps) simp
  next
    case False
    then show ?thesis by (subst (1 2) windows.simps) auto
  qed
qed

lemma chunk_text_str:
  "s \<noteq> [] \<Longrightarrow> cs \<noteq> ov \<Longrightarrow> chunk_text (CStr s) cs ov = Inr (chunk_loop s cs (cs - ov) 0)"
  by (simp add: chunk_text_def pd_isna_def)

lemma chunk_loop_empty [simp]: "chunk_loop [] cs st i = []"
proof (induction "[] :: ustr" cs st i rule: chunk_loop.induct)
  case (1 cs st i)
  show ?case
  proof (cases "0 < st \<and> i < 0")
    case True
    with 1 show ?thesis
      by (subst chunk_loop.simps) (simp add: py_slice_def Let_def)
  next
    case False
    then show ?thesis by (subst chunk_loop.simps) auto
  qed
qed

text \<open>
  Claim C2, as the specification states it, fails: the fragments are trimmed, so whitespace at
  the edge of a window is lost. The text \<open>" a"\<close> (code points 32, 97) with the default
  parameters yields the single fragment \<open>"a"\<close>, which does not concatenate back to the text.
  A negative overlap satisfies \<open>overlap < chunk_size\<close> as well and leaves gaps between the
  windows: \<open>"abc"\<close> with \<open>chunk_size = 1\<close> and \<open>overlap = -1\<close> yields \<open>"a"\<close> and \<open>"c"\<close>.
\<close>

theorem chunk_text_reconstruct_counterexample:
  "chunk_text (CStr [32, 97]) 500 50 = Inr [[97]]
   \<and> drop_overlap (500 - 50) [[97]] \<noteq> [32, 97]
   \<and> chunk_text (CStr [97, 98, 99]) 1 (- 1) = Inr [[97], [99]]
   \<and> drop_overlap (1 - (- 1)) [[97], [99]] \<noteq> [97, 98, 99]"
  by (simp add: chunk_text_def pd_isna_def chunk_loop.simps py_slice_def strip_def
      isspace_def drop_overlap_def)

text \<open>
  Claim C2, amended: for every text and every \<open>0 \<le> overlap < chunk_size\<close>, \<open>chunk_text\<close>
  returns, in order, the trimmed forms of the windows \<open>text[i:i + chunk_size]\<close> that are not
  blank; the windows themselves, each with its overlapping tail removed, concatenate back to
  the original text, and so do the returned fragments when the text contains no whitespace;
  and no returned fragment is empty after trimming (trimming it again changes nothing).
\<close>

theorem chunk_text_fragments:
  assumes "0 \<le> overlap" and "overlap < chunk_size"
  shows "chunk_text (CStr text) chunk_size overlap =
           Inr (map strip (filter (\<lambda>w. strip w \<noteq> [])
                  (windows text chunk_size (chunk_size - overlap) 0)))
         \<and> drop_overlap (chunk_size - overlap)
              (windows text chunk_size (chunk_size - overlap) 0) = text
         \<and> (\<forall>frags. chunk_text (CStr text) chunk_size overlap = Inr frags \<longrightarrow>
              (\<forall>f \<in> set frags. strip f \<noteq> [] \<and> strip f = f)
              \<and> ((\<forall>c \<in> set text. \<not> isspace c) \<longrightarrow>
                   drop_overlap (chunk_size - overlap) frags = text))"
proof -
  let ?st = "chunk_size - overlap"
  have st: "0 < ?st" "?st \<le> chunk_size" using assms by auto
  have ct: "chunk_text (CStr text) chunk_size overlap = Inr (chunk_loop text chunk_size ?st 0)"
  proof (cases "text = []")
    case True
    then show ?thesis by (simp add: chunk_text_def)
  next
    case False
    then show ?thesis using assms by (simp add: chunk_text_str)
  qed
  have cover: "drop_overlap ?st (windows text chunk_size ?st 0) = text"
    using windows_cover [of 0 "chunk_size - overlap" chunk_size "text"] st by (simp add: drop_overlap_def)
  have trimmed: "\<forall>f \<in> set (chunk_loop text chunk_size ?st 0). strip f \<noteq> [] \<and> strip f = f"
  proof
    fix f
    assume "f \<in> set (chunk_loop text chunk_size ?st 0)"
    then have "f \<noteq> [] \<and> strip f = f" by (rule chunk_loop_trimmed)
    then show "strip f \<noteq> [] \<and> strip f = f" by simp
  qed
  have nospace: "drop_overlap ?st (chunk_loop text chunk_size ?st 0) = text"
    if "\<forall>c \<in> set text. \<not> isspace c"
  proof -
    have "chunk_loop text chunk_size ?st 0 = windows text chunk_size ?st 0"
      using windows_no_space [OF that, of chunk_size 0 "chunk_size - overlap"] st
      by (simp add: chunk_loop_windows)
    with cover show ?thesis by simp
  qed
  have frags: "\<forall>frags. chunk_text (CStr text) chunk_size overlap = Inr frags \<longrightarrow>
      (\<forall>f \<in> set frags. strip f \<noteq> [] \<and> strip f = f)
      \<and> ((\<forall>c \<in> set text. \<not> isspace c) \<longrightarrow> drop_overlap ?st frags = text)"
    unfolding ct using trimmed nospace by blast
  have "chunk_text (CStr text) chunk_size overlap =
      Inr (map strip (filter (\<lambda>w. strip w \<noteq> []) (windows text chunk_size ?st 0)))"
    unfolding ct by (simp only: chunk_loop_windows)
  with cover frags show ?thesis by blast
qed

theorem chunk_text_fragments_witness:
  "(0::int) \<le> 1 \<and> (1::int) < 3
   \<and> chunk_text (CStr [97, 98, 32, 99, 100, 101, 102]) 3 1
       = Inr [[97, 98], [99, 100], [100, 101, 102], [102]]
   \<and> drop_overlap (3 - 1) (windows [97, 98, 32, 99, 100, 101, 102] 3 (3 - 1) 0)
       = [97, 98, 32, 99, 100, 101, 102]
   \<and> chunk_text (CStr [97, 98, 99, 100, 101]) 3 1 = Inr [[97, 98, 99], [99, 100, 101], [101]]
   \<and> drop_overlap (3 - 1) [[97, 98, 99], [99, 100, 101], [101]] = [97, 98, 99, 100, 101]"
proof -
  have a: "(0::int) \<le> 1" and b: "(1::int) < 3" by simp_all
  have e1: "chunk_text (CStr [97, 98, 32, 99, 100, 101, 102]) 3 1
       = Inr [[97, 98], [99, 100], [100, 101, 102], [102]]"
    by (simp add: chunk_text_def pd_isna_def chunk_loop.simps py_slice_def strip_def isspace_def)
  have e2: "chunk_text (CStr [97, 98, 99, 100, 101]) 3 1 = Inr [[97, 98, 99], [99, 100, 101], [101]]"
    by (simp add: chunk_text_def pd_isna_def chunk_loop.simps py_slice_def strip_def isspace_def)
  have ns: "\<forall>c \<in> set [97, 98, 99, 100, 101 :: int]. \<not> isspace c"
    by (simp add: isspace_def)
  from chunk_text_fragments [OF a b, of "[97, 98, 32, 99, 100, 101, 102]"]
  have w1: "drop_overlap (3 - 1) (windows [97, 98, 32, 99, 100, 101, 102] 3 (3 - 1) 0)
       = [97, 98, 32, 99, 100, 101, 102]"
    by blast
  from chunk_text_fragments [OF a b, of "[97, 98, 99, 100, 101]"] e2 ns
  have w2: "drop_overlap (3 - 1) [[97, 98, 99], [99, 100, 101], [101]] = [97, 98, 99, 100, 101]"
    by blast
  from a b e1 e2 w1 w2 show ?thesis by blast
qed

text \<open>
  Claim C4, as the specification states it, fails for a negative stride: \<open>range\<close> with a
  negative step and a positive stop is empty, so \<open>chunk_text\<close> returns the empty list without
  any error. For the text \<open>"a"\<close> with \<open>chunk_size = 50\<close> and \<open>overlap = 500\<close>:
\<close>

theorem chunk_text_negative_stride_counterexample:
  "chunk_text (CStr [97]) 50 500 = Inr []"
  by (simp add: chunk_text_def pd_isna_def chunk_loop.simps)

text \<open>
  Claim C4, amended: for every non-empty text, \<open>chunk_text\<close> never loops indefinitely; it
  raises \<open>ValueError\<close> when \<open>chunk_size - overlap = 0\<close> and returns the empty list, without an
  error, when \<open>chunk_size - overlap < 0\<close>.
\<close>

theorem chunk_text_bad_stride:
  assumes "text \<noteq> []" and "chunk_size - overlap \<le> 0"
  shows "chunk_text (CStr text) chunk_size overlap =
           (if chunk_size - overlap = 0 then Inl ValueError else Inr [])"
  using assms by (simp add: chunk_text_def pd_isna_def chunk_loop.simps)

theorem chunk_text_bad_stride_witness:
  "[97] \<noteq> ([] :: ustr) \<and> (50::int) - 50 \<le> 0 \<and> (50::int) - 500 \<le> 0
   \<and> chunk_text (CStr [97]) 50 50 = Inl ValueError
   \<and> chunk_text (CStr [97]) 50 500 = Inr []"
  using chunk_text_bad_stride [of "[97]" 50 50] chunk_text_bad_stride [of "[97]" 50 500]
  by simp

text \<open>
  Claim C5: \<open>chunk_text\<close> applied to the empty string or to a missing value (\<open>None\<close> or NaN)
  returns the empty list of fragments and raises nothing, whatever the two parameters are
  (also when \<open>chunk_size = overlap\<close>, because the test comes before \<open>range\<close> is built).
\<close>

theorem chunk_text_missing:
  "chunk_text CNone chunk_size overlap = Inr []
   \<and> chunk_text CNaN chunk_size overlap = Inr []
   \<and> chunk_text (CStr []) chunk_size overlap = Inr []"
  by (simp add: chunk_text_def pd_isna_def)

section \<open>Properties of the upsert layer\<close>

subsection \<open>What each clause changes\<close>

lemma fold_update_map_of:
  "map_of (fold (\<lambda>(k, v). AList.update k v) kvs ps) x =
     (case map_of (rev kvs) x of Some v \<Rightarrow> Some v | None \<Rightarrow> map_of ps x)"
proof (induction kvs arbitrary: ps)
  case Nil
  then show ?case by simp
next
  case (Cons kv kvs)
  obtain k v where kv: "kv = (k, v)" by (cases kv)
  show ?case
    by (simp add: kv Cons.IH update_conv' map_add_def split: option.splits)
qed

lemma fold_update_other:
  "x \<notin> fst ` set kvs \<Longrightarrow> map_of (fold (\<lambda>(k, v). AList.update k v) kvs ps) x = map_of ps x"
proof -
  assume "x \<notin> fst ` set kvs"
  then have "map_of (rev kvs) x = None" by (simp add: map_of_eq_None_iff)
  then show ?thesis by (simp add: fold_update_map_of)
qed

lemma fold_update_set:
  assumes "distinct (map fst kvs)" and "(k, v) \<in> set kvs"
  shows "map_of (fold (\<lambda>(k, v). AList.update k v) kvs ps) k = Some v"
proof -
  from assms have "map_of (rev kvs) k = Some v"
    by (intro map_of_is_SomeI) (simp_all add: distinct_rev rev_map [symmetric])
  then show ?thesis by (simp add: fold_update_map_of)
qed

lemma fold_update_triv:
  "(\<forall>(k, v) \<in> set kvs. map_of ps k = Some v) \<Longrightarrow> fold (\<lambda>(k, v). AList.update k v) kvs ps = ps"
  by (induction kvs) (auto simp: update_triv)

lemma set_node_props_simps [simp]:
  "nid (set_node_props kvs n) = nid n"
  "labels (set_node_props kvs n) = labels n"
  by (simp_all add: set_node_props_def)

lemma get_prop_set_other:
  "k \<notin> fst ` set kvs \<Longrightarrow> get_prop (set_node_props kvs n) k = get_prop n k"
  by (simp add: get_prop_def set_node_props_def fold_update_other)

lemma get_prop_set_same:
  "distinct (map fst kvs) \<Longrightarrow> (k, v) \<in> set kvs \<Longrightarrow> get_prop (set_node_props kvs n) k = Some v"
  by (simp add: get_prop_def set_node_props_def fold_update_set)

lemma set_node_props_triv:
  "(\<forall>(k, v) \<in> set kvs. get_prop n k = Some v) \<Longrightarrow> set_node_props kvs n = n"
  by (simp add: set_node_props_def get_prop_def fold_update_triv)

lemma nodes_fold_merge_rel [simp]: "nodes (fold (merge_rel t) ps g) = nodes g"
  by (induction ps arbitrary: g) (auto simp: merge_rel_def)

lemma next_id_fold_merge_rel [simp]: "next_id (fold (merge_rel t) ps g) = next_id g"
  by (induction ps arbitrary: g) (auto simp: merge_rel_def)

lemma nodes_merge_rels [simp]: "nodes (merge_rels t p q f g) = nodes g"
  by (simp add: merge_rels_def)

lemma has_rel_merge_rel_mono: "has_rel t a b g \<Longrightarrow> has_rel t a b (merge_rel t' ab g)"
  by (cases ab) (auto simp: has_rel_def merge_rel_def list_ex_iff)

lemma has_rel_fold_mono: "has_rel t a b g \<Longrightarrow> has_rel t a b (fold (merge_rel t') ps g)"
  by (induction ps arbitrary: g) (auto simp: has_rel_merge_rel_mono)

lemma has_rel_merge_rel_self: "has_rel t a b (merge_rel t (a, b) g)"
  by (auto simp: has_rel_def merge_rel_def list_ex_iff)

lemma has_rel_fold_self: "(a, b) \<in> set ps \<Longrightarrow> has_rel t a b (fold (merge_rel t) ps g)"
proof (induction ps arbitrary: g)
  case Nil
  then show ?case by simp
next
  case (Cons p ps)
  show ?case
  proof (cases "p = (a, b)")
    case True
    then show ?thesis by (simp add: has_rel_fold_mono has_rel_merge_rel_self)
  next
    case False
    with Cons show ?thesis by simp
  qed
qed

lemma fold_merge_rel_triv:
  "(\<forall>(a, b) \<in> set ps. has_rel t a b g) \<Longrightarrow> fold (merge_rel t) ps g = g"
  by (induction ps) (auto simp: merge_rel_def)

lemma has_rel_cong_rels: "rels g' = rels g \<Longrightarrow> has_rel t a b g' = has_rel t a b g"
  by (simp add: has_rel_def)

lemma rels_merge_node [simp]: "rels (merge_node p g) = rels g"
  by (cases p) (simp add: merge_node_def)

lemma rels_set_props [simp]: "rels (set_props p kvs g) = rels g"
  by (simp add: set_props_def)

lemma match2_set:
  "set (match2 p q g) = {(x, y). x \<in> set (nodes g) \<and> y \<in> set (nodes g) \<and> matches p x \<and> matches q y}"
  by (auto simp: match2_def)

lemma match2_cong: "nodes g' = nodes g \<Longrightarrow> match2 p q g' = match2 p q g"
  by (simp add: match2_def)

lemma fin_MergeRels_iff:
  "fin (MergeRels t p q f) g \<longleftrightarrow>
     (\<forall>x \<in> set (nodes g). \<forall>y \<in> set (nodes g). matches p x \<longrightarrow> matches q y \<longrightarrow>
        (if f then has_rel t (nid y) (nid x) g else has_rel t (nid x) (nid y) g))"
  by (auto simp: list_all_iff match2_set)

lemma fin_SetProps_iff:
  "fin (SetProps p kvs) g \<longleftrightarrow>
     (\<forall>n \<in> set (nodes g). matches p n \<longrightarrow> (\<forall>(k, v) \<in> set kvs. get_prop n k = Some v))"
  by (auto simp: list_all_iff)

lemma fin_MergeNode_iff: "fin (MergeNode p) g \<longleftrightarrow> (\<exists>n \<in> set (nodes g). matches p n)"
  by (simp add: list_ex_iff)

declare fin.simps [simp del]

lemma matches_new:
  "matches p \<lparr>nid = i, labels = [l], props = [(k, v)]\<rparr> \<longleftrightarrow> p = (l, k, v)"
  by (cases p) (auto simp: matches_def get_prop_def)

lemma nodes_merge_node:
  "nodes (merge_node p g) =
     (if list_ex (matches p) (nodes g) then nodes g
      else nodes g @ [\<lparr>nid = next_id g, labels = [fst p], props = [snd p]\<rparr>])"
  by (cases p) (simp add: merge_node_def)

lemma nodes_set_props:
  "nodes (set_props p kvs g) = map (\<lambda>n. if matches p n then set_node_props kvs n else n) (nodes g)"
  by (simp add: set_props_def)

subsection \<open>A clause that has nothing left to do changes nothing\<close>

lemma exec_fin: "fin c g \<Longrightarrow> exec c g = g"
proof (cases c)
  case (MergeNode p)
  assume "fin c g"
  with MergeNode show ?thesis by (simp add: fin.simps merge_node_def)
next
  case (SetProps p kvs)
  assume "fin c g"
  with SetProps have "\<forall>n \<in> set (nodes g). matches p n \<longrightarrow> set_node_props kvs n = n"
    by (auto simp: fin_SetProps_iff intro!: set_node_props_triv)
  then have "map (\<lambda>n. if matches p n then set_node_props kvs n else n) (nodes g) = nodes g"
    by (intro map_idI) auto
  with SetProps show ?thesis by (simp add: set_props_def)
next
  case (MergeRels t p q f)
  assume "fin c g"
  with MergeRels have "\<forall>(a, b) \<in> set (map (\<lambda>(x, y). if f then (nid y, nid x) else (nid x, nid y))
      (match2 p q g)). has_rel t a b g"
    by (simp add: fin.simps list_all_iff)
  then have "fold (merge_rel t) (map (\<lambda>(x, y). if f then (nid y, nid x) else (nid x, nid y))
      (match2 p q g)) g = g"
    by (rule fold_merge_rel_triv)
  with MergeRels show ?thesis by (simp add: merge_rels_def)
qed

lemma fold_exec_fin: "(\<forall>c \<in> set cs. fin c g) \<Longrightarrow> fold exec cs g = g"
  by (induction cs) (simp_all add: exec_fin)

subsection \<open>Every clause establishes its own goal\<close>

lemma fin_exec: "self_ok c \<Longrightarrow> fin c (exec c g)"
proof (cases c)
  case (MergeNode p)
  show ?thesis
    unfolding MergeNode exec.simps fin_MergeNode_iff
    by (cases p) (auto simp: nodes_merge_node list_ex_iff matches_new)
next
  case (SetProps p kvs)
  assume ok: "self_ok c"
  obtain l k v where p: "p = (l, k, v)" by (cases p)
  from ok SetProps p have k: "k \<notin> fst ` set kvs" and d: "distinct (map fst kvs)" by auto
  have m: "matches p (set_node_props kvs n) = matches p n" for n
    using k by (simp add: matches_def p get_prop_set_other)
  show ?thesis
    unfolding SetProps exec.simps fin_SetProps_iff nodes_set_props
    using d by (auto simp: m get_prop_set_same)
next
  case (MergeRels t p q f)
  show ?thesis
    unfolding MergeRels exec.simps fin_MergeRels_iff
    by (auto simp: merge_rels_def match2_set intro!: has_rel_fold_self)
qed

subsection \<open>Later clauses keep what earlier ones established\<close>

lemma labels_apart_exec: "labels_apart g \<Longrightarrow> labels_apart (exec c g)"
proof (cases c)
  case (MergeNode p)
  assume "labels_apart g"
  then show ?thesis
    unfolding MergeNode exec.simps
    by (cases p) (auto simp: labels_apart_def list_all_iff nodes_merge_node)
next
  case (SetProps p kvs)
  assume "labels_apart g"
  then show ?thesis
    unfolding SetProps exec.simps
    by (auto simp: labels_apart_def list_all_iff nodes_set_props)
next
  case (MergeRels t p q f)
  assume "labels_apart g"
  then show ?thesis
    unfolding MergeRels exec.simps by (simp add: labels_apart_def)
qed

lemma labels_apart_fold: "labels_apart g \<Longrightarrow> labels_apart (fold exec cs g)"
  by (induction cs arbitrary: g) (simp_all add: labels_apart_exec)

lemma matches_after_set:
  assumes "labels_apart g" and "n \<in> set (nodes g)" and "stable p q kvs"
  shows "matches p (if matches q n then set_node_props kvs n else n) = matches p n"
proof (cases "matches q n")
  case False
  then show ?thesis by simp
next
  case True
  obtain l k v where p: "p = (l, k, v)" by (cases p)
  obtain l' k' v' where q: "q = (l', k', v')" by (cases q)
  from assms(3) consider "k \<notin> fst ` set kvs" | "apart l l'"
    by (auto simp: stable_def p q)
  then show ?thesis
  proof cases
    case 1
    then show ?thesis by (simp add: matches_def p get_prop_set_other)
  next
    case 2
    from True have "l' \<in> set (labels n)" by (simp add: matches_def q)
    with 2 assms(1,2) have "l \<notin> set (labels n)"
      by (auto simp: apart_def labels_apart_def list_all_iff)
    then show ?thesis by (simp add: matches_def p)
  qed
qed

lemma exclusive_matches:
  assumes "labels_apart g" and "n \<in> set (nodes g)" and "exclusive p q" and "matches p n"
  shows "\<not> matches q n"
proof
  assume mq: "matches q n"
  obtain l k v where p: "p = (l, k, v)" by (cases p)
  obtain l' k' v' where q: "q = (l', k', v')" by (cases q)
  from assms(3) consider "apart l l'" | "k = k'" "v \<noteq> v'"
    by (auto simp: exclusive_def p q)
  then show False
  proof cases
    case 1
    with assms(1,2,4) mq show False
      by (auto simp: apart_def labels_apart_def list_all_iff matches_def p q)
  next
    case 2
    with assms(4) mq show False by (simp add: matches_def p q)
  qed
qed

lemma fin_kept_MergeRels: "fin c g \<Longrightarrow> fin c (merge_rels t p q f g)"
proof (cases c)
  case (MergeNode p')
  assume "fin c g"
  with MergeNode show ?thesis by (simp add: fin_MergeNode_iff)
next
  case (SetProps p' kvs)
  assume "fin c g"
  with SetProps show ?thesis by (simp add: fin_SetProps_iff)
next
  case (MergeRels t' p' q' f')
  assume "fin c g"
  with MergeRels show ?thesis
    by (simp add: fin_MergeRels_iff) (simp add: merge_rels_def has_rel_fold_mono)
qed

lemma fin_kept_MergeNode:
  assumes "indep c (MergeNode q)" and "fin c g"
  shows "fin c (merge_node q g)"
proof (cases "list_ex (matches q) (nodes g)")
  case True
  with assms(2) show ?thesis by (simp add: merge_node_def)
next
  case False
  let ?new = "\<lparr>nid = next_id g, labels = [fst q], props = [snd q]\<rparr>"
  have n: "nodes (merge_node q g) = nodes g @ [?new]"
    using False by (simp add: nodes_merge_node)
  have r: "has_rel t a b (merge_node q g) = has_rel t a b g" for t a b
    by (simp add: has_rel_def)
  have new: "matches p ?new \<longleftrightarrow> p = q" for p
    by (cases q) (simp add: matches_new)
  show ?thesis
  proof (cases c)
    case (MergeNode p')
    with assms(2) show ?thesis by (auto simp: fin_MergeNode_iff n)
  next
    case (SetProps p' kvs)
    with assms show ?thesis by (auto simp: fin_SetProps_iff n new)
  next
    case (MergeRels t' p' q' f')
    with assms show ?thesis by (auto simp: fin_MergeRels_iff n new r)
  qed
qed

lemma fin_kept_SetProps:
  assumes "labels_apart g" and "indep c (SetProps q kvs)" and "fin c g"
  shows "fin c (set_props q kvs g)"
proof -
  let ?u = "\<lambda>n. if matches q n then set_node_props kvs n else n"
  have r: "has_rel t a b (set_props q kvs g) = has_rel t a b g" for t a b
    by (simp add: has_rel_def)
  have id: "nid (?u n) = nid n" for n by simp
  show ?thesis
  proof (cases c)
    case (MergeNode p')
    with assms(2) have st: "stable p' q kvs" by simp
    from assms(3) MergeNode obtain n where n: "n \<in> set (nodes g)" "matches p' n"
      by (auto simp: fin_MergeNode_iff)
    with matches_after_set [OF assms(1) n(1) st] have "matches p' (?u n)" by simp
    with n(1) have "\<exists>m \<in> set (nodes (set_props q kvs g)). matches p' m"
      unfolding nodes_set_props by (intro bexI [of _ "?u n"]) auto
    with MergeNode show ?thesis by (simp add: fin_MergeNode_iff)
  next
    case (SetProps p' kvs')
    with assms(2) have st: "stable p' q kvs" and ex: "exclusive p' q" by simp_all
    have "\<forall>(k, v) \<in> set kvs'. get_prop (?u n) k = Some v"
      if n: "n \<in> set (nodes g)" and m: "matches p' (?u n)" for n
    proof -
      from matches_after_set [OF assms(1) n st] m have mp: "matches p' n" by simp
      with exclusive_matches [OF assms(1) n ex] have "\<not> matches q n" by simp
      then have "?u n = n" by simp
      moreover from assms(3) SetProps n mp have "\<forall>(k, v) \<in> set kvs'. get_prop n k = Some v"
        by (auto simp: fin_SetProps_iff)
      ultimately show ?thesis by simp
    qed
    then have h: "\<And>n. n \<in> set (nodes g) \<Longrightarrow> matches p' (?u n) \<Longrightarrow>
        \<forall>(k, v) \<in> set kvs'. get_prop (?u n) k = Some v" .
    show ?thesis
      unfolding SetProps fin_SetProps_iff nodes_set_props
    proof (intro ballI impI)
      fix m
      assume "m \<in> set (map ?u (nodes g))" and mm: "matches p' m"
      then have "m \<in> ?u ` set (nodes g)" by (simp only: set_map)
      then obtain n where "m = ?u n" and "n \<in> set (nodes g)" by (rule imageE)
      with h [of n] mm show "case_prod (\<lambda>k v. get_prop m k = Some v) x" if "x \<in> set kvs'" for x
        using that by blast
    qed
  next
    case (MergeRels t' p' q' f')
    with assms(2) have st: "stable p' q kvs" "stable q' q kvs" by simp_all
    have h: "if f' then has_rel t' (nid y) (nid x) g else has_rel t' (nid x) (nid y) g"
      if x: "x \<in> set (nodes g)" and y: "y \<in> set (nodes g)"
        and mx: "matches p' (?u x)" and my: "matches q' (?u y)" for x y
    proof -
      from matches_after_set [OF assms(1) x st(1)] mx have "matches p' x" by simp
      moreover from matches_after_set [OF assms(1) y st(2)] my have "matches q' y" by simp
      ultimately show ?thesis
        using assms(3) MergeRels x y by (auto simp: fin_MergeRels_iff)
    qed
    show ?thesis
      unfolding MergeRels fin_MergeRels_iff nodes_set_props
    proof (intro ballI impI)
      fix a b
      assume "a \<in> set (map ?u (nodes g))" and "b \<in> set (map ?u (nodes g))"
        and ma: "matches p' a" and mb: "matches q' b"
      then have "a \<in> ?u ` set (nodes g)" and "b \<in> ?u ` set (nodes g)" by (simp_all only: set_map)
      then obtain x y where a: "a = ?u x" "x \<in> set (nodes g)" and b: "b = ?u y" "y \<in> set (nodes g)"
        by (elim imageE)
      from h [OF a(2) b(2)] ma mb a(1) b(1)
      have "if f' then has_rel t' (nid y) (nid x) g else has_rel t' (nid x) (nid y) g" by simp
      moreover have "nid a = nid x" "nid b = nid y" using a(1) b(1) by simp_all
      ultimately show "if f' then has_rel t' (nid b) (nid a) (set_props q kvs g)
          else has_rel t' (nid a) (nid b) (set_props q kvs g)"
        by (simp add: r)
    qed
  qed
qed

lemma fin_kept: "labels_apart g \<Longrightarrow> indep c d \<Longrightarrow> fin c g \<Longrightarrow> fin c (exec d g)"
  by (cases d) (simp_all add: fin_kept_MergeNode fin_kept_SetProps fin_kept_MergeRels)

lemma fin_kept_fold:
  "labels_apart g \<Longrightarrow> fin c g \<Longrightarrow> \<forall>d \<in> set ds. indep c d \<Longrightarrow> fin c (fold exec ds g)"
  by (induction ds arbitrary: g) (simp_all add: fin_kept labels_apart_exec)

lemma fin_all_fold:
  "labels_apart g \<Longrightarrow> sorted_wrt indep cs \<Longrightarrow> \<forall>c \<in> set cs. self_ok c \<Longrightarrow>
   \<forall>c \<in> set cs. fin c (fold exec cs g)"
proof (induction cs arbitrary: g)
  case Nil
  then show ?case by simp
next
  case (Cons c cs)
  have "fin c (exec c g)" using Cons.prems(3) by (simp add: fin_exec)
  then have "fin c (fold exec cs (exec c g))"
    using Cons.prems(1,2) by (intro fin_kept_fold) (simp_all add: labels_apart_exec)
  moreover have "\<forall>d \<in> set cs. fin d (fold exec cs (exec c g))"
    using Cons.prems by (intro Cons.IH) (simp_all add: labels_apart_exec)
  ultimately show ?case by simp
qed

lemma fold_exec_idem:
  assumes "labels_apart g" and "sorted_wrt indep cs" and "\<forall>c \<in> set cs. self_ok c"
  shows "fold exec cs (fold exec cs g) = fold exec cs g"
  using fin_all_fold [OF assms] by (rule fold_exec_fin)

subsection \<open>The upsert pass is its clause sequence\<close>

lemma str_nat_decode: "foldl (\<lambda>a d. 10 * a + nat (d - 48)) 0 (str_nat n) = n"
proof (induction n rule: str_nat.induct)
  case (1 n)
  show ?case
  proof (cases "n < 10")
    case True
    then show ?thesis by (subst str_nat.simps) simp
  next
    case False
    with 1 have "foldl (\<lambda>a d. 10 * a + nat (d - 48)) 0 (str_nat (n div 10)) = n div 10" by simp
    with False show ?thesis by (subst str_nat.simps) simp
  qed
qed

lemma str_nat_inj: "str_nat i = str_nat j \<Longrightarrow> i = j"
  by (metis str_nat_decode)

lemma content_id_inj [simp]: "content_id aid i = content_id aid j \<longleftrightarrow> i = j"
  by (auto simp: content_id_def dest: str_nat_inj)

lemma content_loop_clauses:
  "content_loop g aid ad i chunks = fold exec (content_clauses aid ad i chunks) g"
  by (induction chunks arbitrary: g i) simp_all

lemma media_clauses:
  "create_media_node_and_relationship g aid source =
     fold exec (named_clauses PUBLISHED True Media aid source) g"
  by (cases source)
    (simp_all add: create_media_node_and_relationship_def named_clauses_def pd_isna_def media_pat_def)

lemma category_clauses:
  "create_category_node_and_relationship g aid category =
     fold exec (named_clauses BELONGS_TO False Category aid category) g"
  by (cases category)
    (simp_all add: create_category_node_and_relationship_def named_clauses_def pd_isna_def
      category_pat_def)

lemma upsert_pass_clauses:
  "upsert_pass g ad chunks source category = fold exec (pass_clauses ad chunks source category) g"
  by (simp add: upsert_pass_def pass_clauses_def create_article_node_def create_content_nodes_def
      content_loop_clauses media_clauses category_clauses)

lemma content_clauses_shape:
  "c \<in> set (content_clauses aid ad i chunks) \<Longrightarrow> content_clause aid ad i c"
proof (induction chunks arbitrary: i)
  case Nil
  then show ?case by simp
next
  case (Cons chunk rest)
  from Cons.prems consider "c = MergeNode (content_pat (content_id aid i))"
    | "c = SetProps (content_pat (content_id aid i)) (content_props aid ad i chunk)"
    | "c = MergeRels HAS_CHUNK (article_pat aid) (content_pat (content_id aid i)) False"
    | "c \<in> set (content_clauses aid ad (Suc i) rest)"
    by auto
  then show ?case
  proof cases
    case 4
    then have "content_clause aid ad (Suc i) c" by (rule Cons.IH)
    then obtain j ch where j: "Suc i \<le> j"
      and c: "c = MergeNode (content_pat (content_id aid j))
         \<or> c = SetProps (content_pat (content_id aid j)) (content_props aid ad j ch)
         \<or> c = MergeRels HAS_CHUNK (article_pat aid) (content_pat (content_id aid j)) False"
      unfolding content_clause_def by blast
    from j have "i \<le> j" by simp
    with c show ?thesis unfolding content_clause_def by blast
  qed (auto simp: content_clause_def)
qed

lemmas pat_defs = article_pat_def content_pat_def media_pat_def category_pat_def
lemmas indep_defs = stable_def exclusive_def apart_def content_props_def article_props_def

lemma content_clauses_sorted: "sorted_wrt indep (content_clauses aid ad i chunks)"
proof (induction chunks arbitrary: i)
  case Nil
  then show ?case by simp
next
  case (Cons chunk rest)
  have later: "indep (MergeNode (content_pat (content_id aid i))) d
      \<and> indep (SetProps (content_pat (content_id aid i)) (content_props aid ad i chunk)) d
      \<and> indep (MergeRels HAS_CHUNK (article_pat aid) (content_pat (content_id aid i)) False) d"
    if "d \<in> set (content_clauses aid ad (Suc i) rest)" for d
  proof -
    from that have "content_clause aid ad (Suc i) d" by (rule content_clauses_shape)
    then obtain j ch where j: "Suc i \<le> j"
      and d: "d = MergeNode (content_pat (content_id aid j))
         \<or> d = SetProps (content_pat (content_id aid j)) (content_props aid ad j ch)
         \<or> d = MergeRels HAS_CHUNK (article_pat aid) (content_pat (content_id aid j)) False"
      unfolding content_clause_def by blast
    from j have ne: "i \<noteq> j" by simp
    from d show ?thesis
      using ne by (auto simp: pat_defs indep_defs)
  qed
  have first: "sorted_wrt indep
     [MergeNode (content_pat (content_id aid i)),
      SetProps (content_pat (content_id aid i)) (content_props aid ad i chunk),
      MergeRels HAS_CHUNK (article_pat aid) (content_pat (content_id aid i)) False]"
    by (simp add: pat_defs indep_defs)
  show ?case
    using first later Cons.IH [of "Suc i"] by (simp add: sorted_wrt_append)
qed

lemma content_clauses_self_ok: "c \<in> set (content_clauses aid ad i chunks) \<Longrightarrow> self_ok c"
  by (drule content_clauses_shape) (auto simp: content_clause_def pat_defs indep_defs)

lemma named_clauses_cases:
  "named_clauses t f l aid c = [] \<or>
   (\<exists>s. named_clauses t f l aid c =
      [MergeNode (l, K_name, VStr s), MergeRels t (article_pat aid) (l, K_name, VStr s) f])"
  by (cases c) (simp_all add: named_clauses_def)

lemma pass_clauses_self_ok: "c \<in> set (pass_clauses ad chunks source category) \<Longrightarrow> self_ok c"
  using named_clauses_cases [of PUBLISHED True Media "article_id ad" source]
    named_clauses_cases [of BELONGS_TO False Category "article_id ad" category]
  by (auto simp: pass_clauses_def pat_defs indep_defs dest: content_clauses_self_ok)

lemma pass_clauses_sorted: "sorted_wrt indep (pass_clauses ad chunks source category)"
proof -
  let ?aid = "article_id ad"
  let ?A = "[MergeNode (article_pat ?aid), SetProps (article_pat ?aid) (article_props ad)]"
  let ?C = "content_clauses ?aid ad 0 chunks"
  let ?M = "named_clauses PUBLISHED True Media ?aid source"
  let ?K = "named_clauses BELONGS_TO False Category ?aid category"
  have A: "sorted_wrt indep ?A" by (simp add: pat_defs indep_defs)
  have C: "sorted_wrt indep ?C" by (rule content_clauses_sorted)
  have M: "sorted_wrt indep ?M"
    using named_clauses_cases [of PUBLISHED True Media ?aid source] by auto
  have K: "sorted_wrt indep ?K"
    using named_clauses_cases [of BELONGS_TO False Category ?aid category] by auto
  have named: "d = MergeNode (l, K_name, VStr s) \<or> d = MergeRels t (article_pat ?aid) (l, K_name, VStr s) f"
    if "d \<in> set (named_clauses t f l ?aid c)" and "named_clauses t f l ?aid c =
      [MergeNode (l, K_name, VStr s), MergeRels t (article_pat ?aid) (l, K_name, VStr s) f]"
    for d t f l c s
    using that by auto
  have AC: "indep a d" if "a \<in> set ?A" and "d \<in> set ?C" for a d
  proof -
    from that(2) have "content_clause ?aid ad 0 d" by (rule content_clauses_shape)
    with that(1) show ?thesis by (auto simp: content_clause_def pat_defs indep_defs)
  qed
  have AN: "indep a d" if "a \<in> set ?A" and "d \<in> set (named_clauses t f l ?aid c)"
    and "l = Media \<or> l = Category" for a d t f l c
    using that named_clauses_cases [of t f l ?aid c] by (auto simp: pat_defs indep_defs)
  have CN: "indep a d" if "a \<in> set ?C" and "d \<in> set (named_clauses t f l ?aid c)"
    and "l = Media \<or> l = Category" for a d t f l c
  proof -
    from that(1) have "content_clause ?aid ad 0 a" by (rule content_clauses_shape)
    with that(2,3) named_clauses_cases [of t f l ?aid c] show ?thesis
      by (auto simp: content_clause_def pat_defs indep_defs)
  qed
  have MK: "indep a d" if "a \<in> set ?M" and "d \<in> set ?K" for a d
    using that named_clauses_cases [of PUBLISHED True Media ?aid source]
      named_clauses_cases [of BELONGS_TO False Category ?aid category]
    by (auto simp: pat_defs indep_defs)
  have "sorted_wrt indep (?A @ ?C @ ?M @ ?K)"
    unfolding sorted_wrt_append
    using A C M K AC AN [of _ _ PUBLISHED True Media source]
      AN [of _ _ BELONGS_TO False Category category]
      CN [of _ _ PUBLISHED True Media source] CN [of _ _ BELONGS_TO False Category category] MK
    by (simp only: set_append Un_iff) blast
  then show ?thesis by (simp add: pass_clauses_def)
qed

lemma labels_apart_empty: "labels_apart empty_graph"
  by (simp add: labels_apart_def empty_graph_def)

lemma labels_apart_upsert_pass:
  "labels_apart g \<Longrightarrow> labels_apart (upsert_pass g ad chunks source category)"
  by (simp add: upsert_pass_clauses labels_apart_fold)

lemma asc_simps [simp]: "asc [] = []" "asc (c # cs) = of_char c # asc cs"
  by (simp_all add: asc_def)

lemmas cypher_defs = merge_node_def set_props_def set_node_props_def merge_rels_def match2_def
  merge_rel_def has_rel_def matches_def get_prop_def

lemmas upsert_defs = upsert_pass_def create_article_node_def create_content_nodes_def
  create_media_node_and_relationship_def create_category_node_and_relationship_def
  article_props_def content_props_def pat_defs pd_isna_def

lemmas ingest_defs = build_graph_from_dataframe_def ingest_row_def row_article_data_def
  row_get_def sample_row_def chunk_text_def chunk_loop.simps py_slice_def strip_def isspace_def

lemma content_id_0: "content_id aid 0 = aid @ asc ''_chunk_0''"
  and content_id_1: "content_id aid (Suc 0) = aid @ asc ''_chunk_1''"
  and content_id_2: "content_id aid 2 = aid @ asc ''_chunk_2''"
  by (simp_all add: content_id_def str_nat.simps)

text \<open>
  Claim C1: the ingest is idempotent. For every article record, chunk list, publisher and
  category, running the upsert pass a second time with the same inputs leaves the graph
  exactly as the first run left it: no node and no relationship is added, and no property
  changes. This holds from every graph in which no node is labelled both \<open>Article\<close> and
  \<open>Content\<close>, which is so for the empty graph and stays so under every pass.
\<close>

theorem upsert_pass_idempotent:
  assumes "labels_apart g"
  shows "upsert_pass (upsert_pass g ad chunks source category) ad chunks source category
           = upsert_pass g ad chunks source category"
  unfolding upsert_pass_clauses
  using assms pass_clauses_sorted pass_clauses_self_ok
  by (intro fold_exec_idem) auto

theorem upsert_pass_idempotent_witness:
  "labels_apart empty_graph
   \<and> upsert_pass empty_graph
         \<lparr>article_id = asc ''A'', title = asc ''T'', url = asc ''U'', published_date = asc ''D''\<rparr>
         [asc ''ab''] (CStr (asc ''M'')) CNaN
       = \<lparr>nodes =
            [\<lparr>nid = 0, labels = [Article],
               props = [(K_article_id, VStr [65]), (K_title, VStr [84]), (K_url, VStr [85]),
                        (K_published_date, VStr [68])]\<rparr>,
             \<lparr>nid = 1, labels = [Content],
               props = [(K_content_id, VStr [65, 95, 99, 104, 117, 110, 107, 95, 48]),
                        (K_chunk, VStr [97, 98]), (K_article_id, VStr [65]),
                        (K_title, VStr [84]), (K_url, VStr [85]),
                        (K_published_date, VStr [68]), (K_chunk_index, VInt 0)]\<rparr>,
             \<lparr>nid = 2, labels = [Media], props = [(K_name, VStr [77])]\<rparr>],
          rels = [\<lparr>rtype = HAS_CHUNK, src = 0, dst = 1\<rparr>,
                  \<lparr>rtype = PUBLISHED, src = 2, dst = 0\<rparr>],
          next_id = 3\<rparr>
   \<and> upsert_pass
         (upsert_pass empty_graph
            \<lparr>article_id = asc ''A'', title = asc ''T'', url = asc ''U'', published_date = asc ''D''\<rparr>
            [asc ''ab''] (CStr (asc ''M'')) CNaN)
         \<lparr>article_id = asc ''A'', title = asc ''T'', url = asc ''U'', published_date = asc ''D''\<rparr>
         [asc ''ab''] (CStr (asc ''M'')) CNaN
       = upsert_pass empty_graph
         \<lparr>article_id = asc ''A'', title = asc ''T'', url = asc ''U'', published_date = asc ''D''\<rparr>
         [asc ''ab''] (CStr (asc ''M'')) CNaN"
proof -
  have "upsert_pass empty_graph
         \<lparr>article_id = asc ''A'', title = asc ''T'', url = asc ''U'', published_date = asc ''D''\<rparr>
         [asc ''ab''] (CStr (asc ''M'')) CNaN
       = \<lparr>nodes =
            [\<lparr>nid = 0, labels = [Article],
               props = [(K_article_id, VStr [65]), (K_title, VStr [84]), (K_url, VStr [85]),
                        (K_published_date, VStr [68])]\<rparr>,
             \<lparr>nid = 1, labels = [Content],
               props = [(K_content_id, VStr [65, 95, 99, 104, 117, 110, 107, 95, 48]),
                        (K_chunk, VStr [97, 98]), (K_article_id, VStr [65]),
                        (K_title, VStr [84]), (K_url, VStr [85]),
                        (K_published_date, VStr [68]), (K_chunk_index, VInt 0)]\<rparr>,
             \<lparr>nid = 2, labels = [Media], props = [(K_name, VStr [77])]\<rparr>],
          rels = [\<lparr>rtype = HAS_CHUNK, src = 0, dst = 1\<rparr>,
                  \<lparr>rtype = PUBLISHED, src = 2, dst = 0\<rparr>],
          next_id = 3\<rparr>"
    by (simp add: upsert_defs cypher_defs empty_graph_def content_id_def str_nat.simps)
  with labels_apart_empty upsert_pass_idempotent [OF labels_apart_empty] show ?thesis
    by blast
qed

section \<open>Properties of the batch ingest\<close>

lemma chunk_text_raises:
  "chunk_text c cs ov = Inl e \<longleftrightarrow> (\<exists>s. c = CStr s \<and> s \<noteq> [] \<and> cs - ov = 0) \<and> e = ValueError"
  by (cases c; cases e) (auto simp: chunk_text_def pd_isna_def)

lemma chunker_raises_iff:
  "chunker_raises r cs ov \<longleftrightarrow> (\<exists>c. col_content r = Some c \<and> chunk_text c cs ov = Inl ValueError)"
  by (auto simp: chunker_raises_def chunk_text_raises split: option.splits cell.splits)

lemma content_step_eq:
  "content_step raises r ad cs ov g =
     (if chunker_raises r cs ov then Inl (ChunkError ValueError)
      else if row_chunks r cs ov \<noteq> [] \<and> raises W_content then Inl Neo4jError
      else Inr (create_content_nodes g (article_id ad) (row_chunks r cs ov) ad))"
proof (cases "col_content r")
  case None
  then show ?thesis
    by (simp add: content_step_def chunker_raises_def row_chunks_def create_content_nodes_def)
next
  case (Some c)
  show ?thesis
  proof (cases "chunk_text c cs ov")
    case (Inl e)
    then have "e = ValueError" and "\<not> pd_isna c \<and> c \<noteq> CStr []"
      by (auto simp: chunk_text_raises pd_isna_def)
    with Inl Some show ?thesis
      by (simp add: content_step_def chunker_raises_iff)
  next
    case (Inr chunks)
    have "chunks = []" if "pd_isna c \<or> c = CStr []"
      using that Inr by (simp add: chunk_text_def)
    with Inr Some show ?thesis
      by (auto simp: content_step_def chunker_raises_iff row_chunks_def execute_write_def
          create_content_nodes_def)
  qed
qed

lemma source_step_eq:
  "source_step raises r ad g =
     (if source_raises raises r then Inl Neo4jError
      else Inr (create_media_node_and_relationship g (article_id ad) (cell_of (col_source r))))"
  by (cases "col_source r")
    (simp_all add: source_step_def source_raises_def execute_write_def cell_of_def
      create_media_node_and_relationship_def pd_isna_def)

lemma category_step_eq:
  "category_step raises r ad g =
     (if category_raises raises r then Inl Neo4jError
      else Inr (create_category_node_and_relationship g (article_id ad) (cell_of (col_category r))))"
  by (cases "col_category r")
    (simp_all add: category_step_def category_raises_def execute_write_def cell_of_def
      create_category_node_and_relationship_def pd_isna_def)

lemma ingest_row_error:
  "snd (ingest_row raises g r cs ov) =
     (if raises W_article then Some Neo4jError
      else if chunker_raises r cs ov then Some (ChunkError ValueError)
      else if row_chunks r cs ov \<noteq> [] \<and> raises W_content then Some Neo4jError
      else if source_raises raises r then Some Neo4jError
      else if category_raises raises r then Some Neo4jError
      else None)"
  by (simp add: ingest_row_def Let_def execute_write_def content_step_eq source_step_eq
      category_step_eq)

lemma ingest_row_raises:
  "snd (ingest_row raises g r cs ov) \<noteq> None \<longleftrightarrow>
     raises W_article \<or> content_raises raises r cs ov \<or> source_raises raises r
     \<or> category_raises raises r"
  by (simp add: ingest_row_error content_raises_def)

lemma ingest_row_clauses:
  "fst (ingest_row raises g r cs ov) = fold exec (row_clauses raises r cs ov) g"
  by (simp add: ingest_row_def Let_def execute_write_def content_step_eq source_step_eq
      category_step_eq row_clauses_def content_raises_def create_article_node_def
      create_content_nodes_def content_loop_clauses media_clauses category_clauses)

lemma row_clauses_pass:
  "c \<in> set (row_clauses raises r cs ov) \<Longrightarrow>
   c \<in> set (pass_clauses (row_article_data r) (row_chunks r cs ov) (cell_of (col_source r))
              (cell_of (col_category r)))"
  by (auto simp: row_clauses_def pass_clauses_def Let_def split: if_splits)

lemma row_clauses_whole:
  "\<not> chunker_raises r cs ov \<Longrightarrow>
   row_clauses (\<lambda>w. False) r cs ov =
     pass_clauses (row_article_data r) (row_chunks r cs ov) (cell_of (col_source r))
       (cell_of (col_category r))"
  by (simp add: row_clauses_def pass_clauses_def Let_def content_raises_def source_raises_def
      category_raises_def)

lemma article_kept_pass:
  "c \<in> set (pass_clauses ad chunks source category) \<Longrightarrow> indep (MergeNode (article_pat a)) c"
  using named_clauses_cases [of PUBLISHED True Media "article_id ad" source]
    named_clauses_cases [of BELONGS_TO False Category "article_id ad" category]
  by (auto simp: pass_clauses_def pat_defs indep_defs content_clause_def
      dest!: content_clauses_shape)

lemma article_kept_row:
  "c \<in> set (row_clauses raises r cs ov) \<Longrightarrow> indep (MergeNode (article_pat a)) c"
  by (rule article_kept_pass) (rule row_clauses_pass)

lemma row_clauses_first:
  "\<not> raises W_article \<Longrightarrow>
   \<exists>rest. row_clauses raises r cs ov = MergeNode (article_pat (row_get (col_article_id r))) # rest"
  by (simp add: row_clauses_def Let_def row_article_data_def)

lemma labels_apart_ingest_row:
  "labels_apart g \<Longrightarrow> labels_apart (fst (ingest_row raises g r cs ov))"
  by (simp add: ingest_row_clauses labels_apart_fold)

lemma article_after_row:
  assumes "labels_apart g" and "\<not> raises W_article"
  shows "fin (MergeNode (article_pat (row_get (col_article_id r))))
           (fst (ingest_row raises g r cs ov))"
proof -
  let ?c = "MergeNode (article_pat (row_get (col_article_id r)))"
  obtain rest where rest: "row_clauses raises r cs ov = ?c # rest"
    using row_clauses_first [of raises r cs ov] assms(2) by blast
  have "fin ?c (exec ?c g)" by (rule fin_exec) simp
  moreover have "labels_apart (exec ?c g)" using assms(1) by (rule labels_apart_exec)
  moreover have "\<forall>d \<in> set rest. indep ?c d"
    using article_kept_row [of _ raises r cs ov] rest by simp
  ultimately have "fin ?c (fold exec rest (exec ?c g))" by (intro fin_kept_fold)
  then show ?thesis by (simp add: ingest_row_clauses rest)
qed

lemma build_rows_fst:
  "fst (build_rows faults g p n ((idx, r) # rest) cs ov) =
     fst (build_rows faults (fst (ingest_row (faults p) g r cs ov)) (Suc p) n rest cs ov)"
  by (simp split: prod.splits)

lemma build_rows_clauses:
  "fst (build_rows faults g p n df cs ov) = fold exec (batch_clauses faults p df cs ov) g"
proof (induction df arbitrary: g p)
  case Nil
  then show ?case by (simp add: batch_clauses_def)
next
  case (Cons x rest)
  obtain idx r where x: "x = (idx, r)" by (cases x)
  have "batch_clauses faults p (x # rest) cs ov =
      row_clauses (faults p) r cs ov @ batch_clauses faults (Suc p) rest cs ov"
    by (simp add: batch_clauses_def x)
  then show ?case
    unfolding x build_rows_fst by (simp add: Cons.IH ingest_row_clauses x)
qed

lemma article_kept_rows:
  "labels_apart g \<Longrightarrow> fin (MergeNode (article_pat a)) g \<Longrightarrow>
   fin (MergeNode (article_pat a)) (fst (build_rows faults g p n df cs ov))"
proof (induction df arbitrary: g p)
  case Nil
  then show ?case by simp
next
  case (Cons x rest)
  obtain idx r where x: "x = (idx, r)" by (cases x)
  have "fin (MergeNode (article_pat a)) (fst (ingest_row (faults p) g r cs ov))"
    unfolding ingest_row_clauses
    using Cons.prems article_kept_row by (intro fin_kept_fold) auto
  with Cons.prems(1) show ?case
    unfolding x build_rows_fst by (intro Cons.IH labels_apart_ingest_row)
qed

lemma every_row_reached:
  "labels_apart g \<Longrightarrow> (q, idx, r) \<in> set (enumerate p df) \<Longrightarrow> \<not> faults q W_article \<Longrightarrow>
   fin (MergeNode (article_pat (row_get (col_article_id r))))
     (fst (build_rows faults g p n df cs ov))"
proof (induction df arbitrary: g p)
  case Nil
  then show ?case by simp
next
  case (Cons x rest)
  obtain idx' r' where x: "x = (idx', r')" by (cases x)
  from Cons.prems(2) consider "q = p" "idx = idx'" "r = r'"
    | "(q, idx, r) \<in> set (enumerate (Suc p) rest)"
    by (auto simp: x)
  then show ?case
  proof cases
    case 1
    from Cons.prems(1,3) show ?thesis
      unfolding x build_rows_fst 1 [symmetric]
      by (intro article_kept_rows labels_apart_ingest_row article_after_row)
  next
    case 2
    with Cons.prems(1,3) show ?thesis
      unfolding x build_rows_fst by (intro Cons.IH labels_apart_ingest_row)
  qed
qed

lemma error_rows_row_lines:
  "error_rows (row_lines idx n err @ out) =
     (if err \<noteq> None \<or> label_raises idx then idx # error_rows out else error_rows out)"
  by (cases idx; cases err) (simp_all add: error_rows_def row_lines_def label_raises_def)

lemma build_rows_errors:
  "error_rows (snd (build_rows faults g p n df cs ov)) = raising_rows faults p df cs ov"
proof (induction df arbitrary: g p)
  case Nil
  then show ?case by (simp add: error_rows_def raising_rows_def)
next
  case (Cons x rest)
  obtain idx r where x: "x = (idx, r)" by (cases x)
  obtain g1 err where row: "ingest_row (faults p) g r cs ov = (g1, err)"
    by (cases "ingest_row (faults p) g r cs ov")
  obtain g2 out where rest: "build_rows faults g1 (Suc p) n rest cs ov = (g2, out)"
    by (cases "build_rows faults g1 (Suc p) n rest cs ov")
  from Cons.IH [of g1 "Suc p"] rest
  have ih: "error_rows out = raising_rows faults (Suc p) rest cs ov" by simp
  from ingest_row_raises [of "faults p" g r cs ov] row
  have err: "err \<noteq> None \<or> label_raises idx \<longleftrightarrow> row_raises (faults p) idx r cs ov"
    by (simp add: row_raises_def)
  have rr: "raising_rows faults p ((idx, r) # rest) cs ov =
      (if row_raises (faults p) idx r cs ov then idx # raising_rows faults (Suc p) rest cs ov
       else raising_rows faults (Suc p) rest cs ov)"
    by (simp add: raising_rows_def)
  have "error_rows (snd (build_rows faults g p n ((idx, r) # rest) cs ov))
      = error_rows (row_lines idx n err @ out)"
    by (simp add: row rest)
  also have "\<dots> = (if row_raises (faults p) idx r cs ov then idx # error_rows out
                    else error_rows out)"
    unfolding error_rows_row_lines err ..
  finally show ?case
    unfolding x rr ih .
qed

text \<open>
  Claim C6, as the specification states it, fails in its last part: the function returns
  nothing and prints only progress and error lines. A batch of one row and a batch of two
  rows, all of which go through, print the same thing, namely nothing, so no count of the
  rows that succeeded is reported.
\<close>

theorem build_graph_no_count_counterexample:
  "snd (build_graph_from_dataframe no_faults empty_graph
          [(IxInt 0, sample_row (asc ''A'') (asc ''ab''))] 500 50) = []
   \<and> snd (build_graph_from_dataframe no_faults empty_graph
            [(IxInt 0, sample_row (asc ''A'') (asc ''ab'')),
             (IxInt 1, sample_row (asc ''B'') (asc ''cd''))] 500 50) = []"
  by code_simp

text \<open>
  Claim C6, amended: a failure while one row is processed, be it raised by \<open>chunk_text\<close>, by
  one of the database writes or by the progress test on an index label that is no number, is
  caught, an error line naming the index label of the row is printed, and the loop goes on with
  the next row; the batch always runs to completion. The error lines name exactly the rows that
  raised, in order. Every row runs its writes up to its own first failure, whatever happened to
  the rows before it: the final graph is the one these writes build, and the Article node of
  every row whose Article write did not raise is in it. No count of succeeded and skipped rows
  is reported.
\<close>

theorem build_graph_continues:
  assumes "labels_apart g"
  shows "error_rows (snd (build_graph_from_dataframe faults g df chunk_size overlap))
           = raising_rows faults 0 df chunk_size overlap
         \<and> (\<forall>(p, idx, r) \<in> set (enumerate 0 df).
               \<not> faults p W_article \<longrightarrow>
               list_ex (matches (article_pat (row_get (col_article_id r))))
                 (nodes (fst (build_graph_from_dataframe faults g df chunk_size overlap))))
         \<and> fst (build_graph_from_dataframe faults g df chunk_size overlap)
             = fold exec (batch_clauses faults 0 df chunk_size overlap) g"
proof -
  have "list_ex (matches (article_pat (row_get (col_article_id r))))
      (nodes (fst (build_graph_from_dataframe faults g df chunk_size overlap)))"
    if "(p, idx, r) \<in> set (enumerate 0 df)" and "\<not> faults p W_article" for p idx r
    using every_row_reached [where faults = faults and q = p and n = "length df", OF assms that]
    by (simp add: build_graph_from_dataframe_def fin.simps)
  then have "\<forall>(p, idx, r) \<in> set (enumerate 0 df).
               \<not> faults p W_article \<longrightarrow>
               list_ex (matches (article_pat (row_get (col_article_id r))))
                 (nodes (fst (build_graph_from_dataframe faults g df chunk_size overlap)))"
    by blast
  then show ?thesis
    by (simp add: build_graph_from_dataframe_def build_rows_errors build_rows_clauses)
qed

theorem build_graph_continues_witness:
  "labels_apart empty_graph
   \<and> snd (build_graph_from_dataframe (\<lambda>p w. p = 0 \<and> w = W_article \<or> p = 2 \<and> w = W_content)
            empty_graph
            [(IxInt 0, sample_row (asc ''A'') (asc ''ab'')),
             (IxStr (asc ''x''), sample_row (asc ''B'') (asc ''cd'')),
             (IxInt 2, sample_row (asc ''C'') (asc ''ef'')),
             (IxInt 9, sample_row (asc ''D'') (asc ''gh''))] 500 50)
       = [RowError (IxInt 0) Neo4jError, RowError (IxStr (asc ''x'')) LabelTypeError,
          RowError (IxInt 2) Neo4jError, Progress 10 4]
   \<and> error_rows (snd (build_graph_from_dataframe
            (\<lambda>p w. p = 0 \<and> w = W_article \<or> p = 2 \<and> w = W_content) empty_graph
            [(IxInt 0, sample_row (asc ''A'') (asc ''ab'')),
             (IxStr (asc ''x''), sample_row (asc ''B'') (asc ''cd'')),
             (IxInt 2, sample_row (asc ''C'') (asc ''ef'')),
             (IxInt 9, sample_row (asc ''D'') (asc ''gh''))] 500 50))
       = [IxInt 0, IxStr (asc ''x''), IxInt 2]
   \<and> list_ex (matches (article_pat (asc ''B'')))
         (nodes (fst (build_graph_from_dataframe
            (\<lambda>p w. p = 0 \<and> w = W_article \<or> p = 2 \<and> w = W_content) empty_graph
            [(IxInt 0, sample_row (asc ''A'') (asc ''ab'')),
             (IxStr (asc ''x''), sample_row (asc ''B'') (asc ''cd'')),
             (IxInt 2, sample_row (asc ''C'') (asc ''ef'')),
             (IxInt 9, sample_row (asc ''D'') (asc ''gh''))] 500 50)))
   \<and> list_ex (matches (article_pat (asc ''C'')))
         (nodes (fst (build_graph_from_dataframe
            (\<lambda>p w. p = 0 \<and> w = W_article \<or> p = 2 \<and> w = W_content) empty_graph
            [(IxInt 0, sample_row (asc ''A'') (asc ''ab'')),
             (IxStr (asc ''x''), sample_row (asc ''B'') (asc ''cd'')),
             (IxInt 2, sample_row (asc ''C'') (asc ''ef'')),
             (IxInt 9, sample_row (asc ''D'') (asc ''gh''))] 500 50)))
   \<and> \<not> list_ex (matches (article_pat (asc ''A'')))
         (nodes (fst (build_graph_from_dataframe
            (\<lambda>p w. p = 0 \<and> w = W_article \<or> p = 2 \<and> w = W_content) empty_graph
            [(IxInt 0, sample_row (asc ''A'') (asc ''ab'')),
             (IxStr (asc ''x''), sample_row (asc ''B'') (asc ''cd'')),
             (IxInt 2, sample_row (asc ''C'') (asc ''ef'')),
             (IxInt 9, sample_row (asc ''D'') (asc ''gh''))] 500 50)))"
proof -
  let ?f = "\<lambda>(p :: nat) w. p = 0 \<and> w = W_article \<or> p = 2 \<and> w = W_content"
  let ?df = "[(IxInt 0, sample_row (asc ''A'') (asc ''ab'')),
              (IxStr (asc ''x''), sample_row (asc ''B'') (asc ''cd'')),
              (IxInt 2, sample_row (asc ''C'') (asc ''ef'')),
              (IxInt 9, sample_row (asc ''D'') (asc ''gh''))]"
  let ?res = "build_graph_from_dataframe ?f empty_graph ?df 500 50"
  note run = build_graph_continues [OF labels_apart_empty, of ?f ?df 500 50]
  have out: "snd ?res = [RowError (IxInt 0) Neo4jError, RowError (IxStr (asc ''x'')) LabelTypeError,
          RowError (IxInt 2) Neo4jError, Progress 10 4]"
    by code_simp
  have "raising_rows ?f 0 ?df 500 50 = [IxInt 0, IxStr (asc ''x''), IxInt 2]"
    by code_simp
  with run have errs: "error_rows (snd ?res) = [IxInt 0, IxStr (asc ''x''), IxInt 2]"
    by (elim conjE) (rule trans)
  from run have reached: "\<forall>(p, idx, r) \<in> set (enumerate 0 ?df).
      \<not> ?f p W_article \<longrightarrow>
      list_ex (matches (article_pat (row_get (col_article_id r)))) (nodes (fst ?res))"
    by (elim conjE)
  have b: "list_ex (matches (article_pat (row_get (col_article_id (sample_row (asc ''B'') (asc ''cd''))))))
      (nodes (fst ?res))"
    using reached [rule_format, of "(1, IxStr (asc ''x''), sample_row (asc ''B'') (asc ''cd''))"]
    by simp
  have c: "list_ex (matches (article_pat (row_get (col_article_id (sample_row (asc ''C'') (asc ''ef''))))))
      (nodes (fst ?res))"
    using reached [rule_format, of "(2, IxInt 2, sample_row (asc ''C'') (asc ''ef''))"]
    by simp
  have ids: "row_get (col_article_id (sample_row (asc ''B'') (asc ''cd''))) = asc ''B''"
    "row_get (col_article_id (sample_row (asc ''C'') (asc ''ef''))) = asc ''C''"
    by (simp_all add: sample_row_def row_get_def)
  have a: "\<not> list_ex (matches (article_pat (asc ''A''))) (nodes (fst ?res))"
    by code_simp
  from labels_apart_empty out errs b c a show ?thesis
    unfolding ids by (intro conjI)
qed

section \<open>Scenario A: one article with a body of 1200 characters\<close>

lemma chunk_text_1200:
  assumes "length body = 1200"
  shows "chunk_text (CStr body) 500 50 =
           Inr (filter (\<lambda>c. c \<noteq> [])
                  [strip (py_slice body 0 500), strip (py_slice body 450 950),
                   strip (py_slice body 900 1400)])"
proof -
  from assms have "body \<noteq> []" by auto
  then have "chunk_text (CStr body) 500 50 = Inr (chunk_loop body 500 (500 - 50) 0)"
    by (simp add: chunk_text_str)
  also have "chunk_loop body 500 (500 - 50) 0 =
      filter (\<lambda>c. c \<noteq> [])
        [strip (py_slice body 0 500), strip (py_slice body 450 950), strip (py_slice body 900 1400)]"
    by (simp add: chunk_loop.simps [of body] assms Let_def)
  finally show ?thesis .
qed

lemma has_chunk_fold_merge_rel:
  "t \<noteq> HAS_CHUNK \<Longrightarrow>
   filter (\<lambda>r. rtype r = HAS_CHUNK) (rels (fold (merge_rel t) ps g))
     = filter (\<lambda>r. rtype r = HAS_CHUNK) (rels g)"
  by (induction ps arbitrary: g) (auto simp: merge_rel_def)

lemma named_clauses_keep:
  assumes "l \<noteq> Content" and "l \<noteq> Article" and "t \<noteq> HAS_CHUNK"
  shows "filter (\<lambda>n. Content \<in> set (labels n)) (nodes (fold exec (named_clauses t f l aid c) g))
           = filter (\<lambda>n. Content \<in> set (labels n)) (nodes g)"
    and "filter (\<lambda>n. Article \<in> set (labels n)) (nodes (fold exec (named_clauses t f l aid c) g))
           = filter (\<lambda>n. Article \<in> set (labels n)) (nodes g)"
    and "filter (\<lambda>r. rtype r = HAS_CHUNK) (rels (fold exec (named_clauses t f l aid c) g))
           = filter (\<lambda>r. rtype r = HAS_CHUNK) (rels g)"
  using assms named_clauses_cases [of t f l aid c]
  by (auto simp: nodes_merge_node merge_rels_def has_chunk_fold_merge_rel)

text \<open>
  The graph after the Article query and the content loop for three chunks, from the empty
  graph.
\<close>

lemma three_chunks_graph:
  "create_content_nodes (create_article_node empty_graph ad) (article_id ad) [c0, c1, c2] ad =
     \<lparr>nodes =
        [\<lparr>nid = 0, labels = [Article],
           props = (K_article_id, VStr (article_id ad)) # article_props ad\<rparr>,
         \<lparr>nid = 1, labels = [Content],
           props = (K_content_id, VStr (content_id (article_id ad) 0))
                   # content_props (article_id ad) ad 0 c0\<rparr>,
         \<lparr>nid = 2, labels = [Content],
           props = (K_content_id, VStr (content_id (article_id ad) 1))
                   # content_props (article_id ad) ad 1 c1\<rparr>,
         \<lparr>nid = 3, labels = [Content],
           props = (K_content_id, VStr (content_id (article_id ad) 2))
                   # content_props (article_id ad) ad 2 c2\<rparr>],
      rels = [\<lparr>rtype = HAS_CHUNK, src = 0, dst = 1\<rparr>, \<lparr>rtype = HAS_CHUNK, src = 0, dst = 2\<rparr>,
              \<lparr>rtype = HAS_CHUNK, src = 0, dst = 3\<rparr>],
      next_id = 4\<rparr>"
  by (simp add: create_content_nodes_def create_article_node_def cypher_defs pat_defs
      article_props_def content_props_def empty_graph_def numeral_2_eq_2)

lemma ingest_row_pass:
  "\<not> chunker_raises r cs ov \<Longrightarrow>
   fst (ingest_row (\<lambda>w. False) g r cs ov) =
     upsert_pass g (row_article_data r) (row_chunks r cs ov)
       (cell_of (col_source r)) (cell_of (col_category r))"
  by (simp add: ingest_row_clauses row_clauses_whole upsert_pass_clauses)

lemma single_row_graph:
  "fst (build_graph_from_dataframe no_faults g [(idx, r)] cs ov)
     = fst (ingest_row (\<lambda>w. False) g r cs ov)"
  by (simp add: build_graph_from_dataframe_def no_faults_def split: prod.splits)

text \<open>
  Claim C3, as the specification states it, fails: a window that holds only whitespace yields no
  fragment. A body of 1200 spaces yields no fragment at all, and its ingest creates no Content
  node.
\<close>

theorem scenario_a_blank_counterexample:
  "length (replicate 1200 (32 :: int)) = 1200
   \<and> chunk_text (CStr (replicate 1200 32)) 500 50 = Inr []
   \<and> filter (\<lambda>n. Content \<in> set (labels n))
         (nodes (fst (build_graph_from_dataframe no_faults empty_graph
                        [(IxInt 0, sample_row (asc ''A'') (replicate 1200 32))] 500 50))) = []"
proof -
  let ?r = "sample_row (asc ''A'') (replicate 1200 32)"
  have blank: "strip (replicate n 32) = []" for n
    by (simp add: strip_def isspace_def)
  have ch: "chunk_text (CStr (replicate 1200 32)) 500 50 = Inr []"
    by (simp add: chunk_text_1200 py_slice_def blank)
  have nr: "\<not> chunker_raises ?r 500 50"
    by (simp add: chunker_raises_def sample_row_def)
  have rc: "row_chunks ?r 500 50 = []"
    by (simp add: row_chunks_def sample_row_def ch)
  have "filter (\<lambda>n. Content \<in> set (labels n))
         (nodes (fst (build_graph_from_dataframe no_faults empty_graph [(IxInt 0, ?r)] 500 50)))
       = []"
    unfolding single_row_graph ingest_row_pass [OF nr] rc upsert_pass_def create_content_nodes_def
      media_clauses category_clauses
    by (simp add: named_clauses_keep create_article_node_def cypher_defs pat_defs empty_graph_def)
  with ch show ?thesis by simp
qed

text \<open>
  Claim C3, amended: ingesting, into the empty graph (\<open>main\<close> clears the database before it
  builds), one article whose body has length 1200,
  with \<open>chunk_size = 500\<close> and \<open>overlap = 50\<close>, when none of the three windows \<open>body[0:500]\<close>,
  \<open>body[450:950]\<close> and \<open>body[900:1400]\<close> is blank (as when the body holds no whitespace),
  produces exactly three Content nodes, with \<open>chunk_index\<close> 0, 1 and 2 and the content
  identifiers \<open>{article_id}_chunk_0\<close> to \<open>_chunk_2\<close>, each the end of a \<open>HAS_CHUNK\<close>
  relationship from the one Article node. (A blank window yields no fragment.)
\<close>

theorem scenario_a:
  assumes "col_content r = Some (CStr body)" and "length body = 1200"
    and "strip (py_slice body 0 500) \<noteq> []" and "strip (py_slice body 450 950) \<noteq> []"
    and "strip (py_slice body 900 1400) \<noteq> []"
  shows "chunk_text (CStr body) 500 50 =
           Inr [strip (py_slice body 0 500), strip (py_slice body 450 950),
                strip (py_slice body 900 1400)]
         \<and> map (\<lambda>n. (nid n, get_prop n K_content_id, get_prop n K_chunk_index, get_prop n K_chunk))
             (filter (\<lambda>n. Content \<in> set (labels n))
                (nodes (fst (build_graph_from_dataframe no_faults empty_graph [(idx, r)] 500 50))))
           = [(1, Some (VStr (row_get (col_article_id r) @ asc ''_chunk_0'')), Some (VInt 0),
                 Some (VStr (strip (py_slice body 0 500)))),
              (2, Some (VStr (row_get (col_article_id r) @ asc ''_chunk_1'')), Some (VInt 1),
                 Some (VStr (strip (py_slice body 450 950)))),
              (3, Some (VStr (row_get (col_article_id r) @ asc ''_chunk_2'')), Some (VInt 2),
                 Some (VStr (strip (py_slice body 900 1400))))]
         \<and> map nid (filter (\<lambda>n. Article \<in> set (labels n))
                      (nodes (fst (build_graph_from_dataframe no_faults empty_graph [(idx, r)] 500 50)))) = [0]
         \<and> filter (\<lambda>e. rtype e = HAS_CHUNK)
               (rels (fst (build_graph_from_dataframe no_faults empty_graph [(idx, r)] 500 50)))
           = [\<lparr>rtype = HAS_CHUNK, src = 0, dst = 1\<rparr>, \<lparr>rtype = HAS_CHUNK, src = 0, dst = 2\<rparr>,
              \<lparr>rtype = HAS_CHUNK, src = 0, dst = 3\<rparr>]"
proof -
  let ?c0 = "strip (py_slice body 0 500)"
  let ?c1 = "strip (py_slice body 450 950)"
  let ?c2 = "strip (py_slice body 900 1400)"
  let ?ad = "row_article_data r"
  have ch: "chunk_text (CStr body) 500 50 = Inr [?c0, ?c1, ?c2]"
    using assms(3-5) by (simp add: chunk_text_1200 [OF assms(2)])
  have nr: "\<not> chunker_raises r 500 50"
    by (simp add: chunker_raises_def split: option.splits cell.splits)
  have rc: "row_chunks r 500 50 = [?c0, ?c1, ?c2]"
    by (simp add: row_chunks_def assms(1) ch)
  have aid: "article_id ?ad = row_get (col_article_id r)"
    by (simp add: row_article_data_def)
  have g: "fst (build_graph_from_dataframe no_faults empty_graph [(idx, r)] 500 50) =
      fold exec (named_clauses BELONGS_TO False Category (article_id ?ad) (cell_of (col_category r)))
        (fold exec (named_clauses PUBLISHED True Media (article_id ?ad) (cell_of (col_source r)))
           (create_content_nodes (create_article_node empty_graph ?ad) (article_id ?ad)
              [?c0, ?c1, ?c2] ?ad))"
    unfolding single_row_graph ingest_row_pass [OF nr] rc upsert_pass_def
      media_clauses category_clauses ..
  show ?thesis
    unfolding g named_clauses_keep [of Category BELONGS_TO, simplified]
      named_clauses_keep [of Media PUBLISHED, simplified]
      three_chunks_graph
    by (simp add: ch get_prop_def content_props_def content_id_0 content_id_1 content_id_2 aid
        numeral_2_eq_2 [symmetric])
qed

theorem scenario_a_witness:
  "col_content (sample_row (asc ''A'') (replicate 1200 97)) = Some (CStr (replicate 1200 97))
   \<and> length (replicate 1200 (97 :: int)) = 1200
   \<and> chunk_text (CStr (replicate 1200 97)) 500 50
       = Inr [replicate 500 97, replicate 500 97, replicate 300 97]
   \<and> filter (\<lambda>e. rtype e = HAS_CHUNK)
         (rels (fst (build_graph_from_dataframe no_faults empty_graph
                       [(IxInt 0, sample_row (asc ''A'') (replicate 1200 97))] 500 50)))
       = [\<lparr>rtype = HAS_CHUNK, src = 0, dst = 1\<rparr>, \<lparr>rtype = HAS_CHUNK, src = 0, dst = 2\<rparr>,
          \<lparr>rtype = HAS_CHUNK, src = 0, dst = 3\<rparr>]"
proof -
  let ?b = "replicate 1200 (97 :: int)"
  have keep: "strip (replicate n 97) = replicate n 97" for n
    by (simp add: strip_def isspace_def)
  have w: "py_slice ?b 0 500 = replicate 500 97" "py_slice ?b 450 950 = replicate 500 97"
    "py_slice ?b 900 1400 = replicate 300 97"
    by (simp_all add: py_slice_def)
  have a: "col_content (sample_row (asc ''A'') ?b) = Some (CStr ?b)"
    by (simp add: sample_row_def)
  have b: "length ?b = 1200" by simp
  have c: "strip (py_slice ?b 0 500) \<noteq> []" "strip (py_slice ?b 450 950) \<noteq> []"
    "strip (py_slice ?b 900 1400) \<noteq> []"
    by (simp_all add: w keep)
  from scenario_a [OF a b c, of "IxInt 0"] a b show ?thesis
    by (simp add: w keep)
qed

section \<open>Properties of the embedding backfill\<close>

lemma embedded_set [simp]: "embedded (set_node_props [(K_embedding, VVec vec)] n)"
  by (simp add: embedded_def get_prop_set_same)

subsection \<open>The identities the store hands out are distinct\<close>

lemma fresh_ids_empty: "fresh_ids empty_graph"
  by (simp add: fresh_ids_def empty_graph_def)

lemma fresh_ids_exec: "fresh_ids g \<Longrightarrow> fresh_ids (exec c g)"
proof (cases c)
  case (MergeNode p)
  assume "fresh_ids g"
  then show ?thesis
    unfolding MergeNode exec.simps
    by (cases p) (auto simp: fresh_ids_def merge_node_def list_all_iff less_Suc_eq)
next
  case (SetProps p kvs)
  assume "fresh_ids g"
  then show ?thesis
    unfolding SetProps exec.simps
    by (auto simp: fresh_ids_def set_props_def list_all_iff o_def if_distrib [of nid]
        cong: if_cong)
next
  case (MergeRels t p q f)
  assume "fresh_ids g"
  moreover have "next_id (fold (merge_rel t) ps g) = next_id g" for ps
    by (induction ps arbitrary: g) (auto simp: merge_rel_def)
  ultimately show ?thesis
    unfolding MergeRels exec.simps
    by (simp add: fresh_ids_def merge_rels_def)
qed

lemma fresh_ids_fold: "fresh_ids g \<Longrightarrow> fresh_ids (fold exec cs g)"
  by (induction cs arbitrary: g) (simp_all add: fresh_ids_exec)

text \<open>The graphs the batch ingest builds from the empty graph have such identities.\<close>

lemma fresh_ids_build:
  "fresh_ids g \<Longrightarrow> fresh_ids (fst (build_graph_from_dataframe faults g df cs ov))"
  by (simp add: build_graph_from_dataframe_def build_rows_clauses fresh_ids_fold)

lemma fresh_ids_distinct: "fresh_ids g \<Longrightarrow> distinct (map nid (nodes g))"
  by (simp add: fresh_ids_def)

subsection \<open>What one pass does to each node\<close>

lemma backfill_loop_errors:
  "snd (backfill_loop embedder (map (\<lambda>n. (nid n, get_prop n K_chunk)) ns) g)
     = map nid (filter (\<lambda>n. embedder (get_prop n K_chunk) = None) ns)"
proof (induction ns arbitrary: g)
  case Nil
  then show ?case by simp
next
  case (Cons n ns)
  show ?case
    by (cases "embedder (get_prop n K_chunk)") (simp_all add: Cons.IH case_prod_beta)
qed

lemma backfill_loop_fst:
  "fst (backfill_loop embedder ((i, tx) # records) g) =
     fst (backfill_loop embedder records
            (case embedder tx of None \<Rightarrow> g | Some vec \<Rightarrow> set_embedding i vec g))"
  by (cases "embedder tx") (simp_all split: prod.splits)

lemma backfill_loop_others:
  "rels (fst (backfill_loop embedder records g)) = rels g
   \<and> next_id (fst (backfill_loop embedder records g)) = next_id g"
proof (induction records arbitrary: g)
  case Nil
  then show ?case by simp
next
  case (Cons rec records)
  obtain i tx where rec: "rec = (i, tx)" by (cases rec)
  show ?case
    unfolding rec backfill_loop_fst
    by (cases "embedder tx") (simp_all add: Cons.IH set_embedding_def)
qed

text \<open>
  The loop over the records taken from the nodes \<open>ns\<close>, whose identities differ: a node of the
  graph whose identity is that of a record gets the vector of that record's text, when the
  embedder yields one, and is left as it is otherwise.
\<close>

lemma backfill_loop_nodes:
  assumes "distinct (map nid ns)"
  shows "nodes (fst (backfill_loop embedder (map (\<lambda>n. (nid n, get_prop n K_chunk)) ns) g))
     = map (\<lambda>m. case find (\<lambda>n. nid n = nid m) ns of
                  None \<Rightarrow> m
                | Some n \<Rightarrow>
                    (case embedder (get_prop n K_chunk) of
                       None \<Rightarrow> m
                     | Some vec \<Rightarrow> set_node_props [(K_embedding, VVec vec)] m))
         (nodes g)"
  using assms
proof (induction ns arbitrary: g)
  case Nil
  then show ?case by simp
next
  case (Cons n ns)
  from Cons.prems have d: "distinct (map nid ns)" and fresh: "nid n \<notin> nid ` set ns"
    by simp_all
  have nf: "find (\<lambda>x. nid x = nid n) ns = None"
    unfolding find_None_iff using fresh by (metis imageI)
  have step: "fst (backfill_loop embedder (map (\<lambda>n. (nid n, get_prop n K_chunk)) (n # ns)) g)
      = fst (backfill_loop embedder (map (\<lambda>n. (nid n, get_prop n K_chunk)) ns)
               (case embedder (get_prop n K_chunk) of
                  None \<Rightarrow> g
                | Some vec \<Rightarrow> set_embedding (nid n) vec g))"
    unfolding list.map by (rule backfill_loop_fst)
  show ?case
  proof (cases "embedder (get_prop n K_chunk)")
    case None
    have "(case find (\<lambda>x. nid x = nid m) (n # ns) of
             None \<Rightarrow> m
           | Some x \<Rightarrow> (case embedder (get_prop x K_chunk) of
                          None \<Rightarrow> m
                        | Some vec \<Rightarrow> set_node_props [(K_embedding, VVec vec)] m))
        = (case find (\<lambda>x. nid x = nid m) ns of
             None \<Rightarrow> m
           | Some x \<Rightarrow> (case embedder (get_prop x K_chunk) of
                          None \<Rightarrow> m
                        | Some vec \<Rightarrow> set_node_props [(K_embedding, VVec vec)] m))" for m
      using None nf by (cases "nid n = nid m") simp_all
    with None show ?thesis
      unfolding step by (simp add: Cons.IH [OF d])
  next
    case (Some vec)
    have "(case find (\<lambda>x. nid x = nid m) (n # ns) of
             None \<Rightarrow> m
           | Some x \<Rightarrow> (case embedder (get_prop x K_chunk) of
                          None \<Rightarrow> m
                        | Some vec \<Rightarrow> set_node_props [(K_embedding, VVec vec)] m))
        = (let m1 = (if nid m = nid n then set_node_props [(K_embedding, VVec vec)] m else m)
           in case find (\<lambda>x. nid x = nid m1) ns of
                None \<Rightarrow> m1
              | Some x \<Rightarrow> (case embedder (get_prop x K_chunk) of
                             None \<Rightarrow> m1
                           | Some vec \<Rightarrow> set_node_props [(K_embedding, VVec vec)] m1))" for m
      using Some nf by (cases "nid n = nid m") (simp_all add: Let_def)
    with Some show ?thesis
      unfolding step by (simp add: Cons.IH [OF d] set_embedding_def o_def Let_def)
  qed
qed

lemma find_own:
  "distinct (map nid ns) \<Longrightarrow> m \<in> set ns \<Longrightarrow>
   find (\<lambda>n. nid n = nid m) (filter P ns) = (if P m then Some m else None)"
proof (induction ns)
  case Nil
  then show ?case by simp
next
  case (Cons x ns)
  show ?case
  proof (cases "m = x")
    case True
    from Cons.prems(1) have "nid x \<notin> nid ` set ns" by simp
    have "find (\<lambda>n. nid n = nid x) (filter P ns) = None"
    proof (rule ccontr)
      assume "find (\<lambda>n. nid n = nid x) (filter P ns) \<noteq> None"
      then obtain y where y: "y \<in> set (filter P ns)" "nid y = nid x"
        unfolding find_None_iff by blast
      from y(1) have "y \<in> set ns" by simp
      then have "nid y \<in> nid ` set ns" by (rule imageI)
      with y(2) \<open>nid x \<notin> nid ` set ns\<close> show False by simp
    qed
    then show ?thesis by (simp add: True)
  next
    case False
    with Cons.prems have "m \<in> set ns" and "nid x \<noteq> nid m" by auto
    with Cons show ?thesis by simp
  qed
qed

text \<open>
  One pass, whatever the embedder does: a Content node without an embedding gets the vector
  that the embedder yields for its \<open>chunk\<close>, and is left as it is when the call raises; every
  other node is left as it is; the error lines name the nodes whose call raised.
\<close>

lemma backfill_nodes:
  assumes "distinct (map nid (nodes g))"
  shows "nodes (fst (backfill embedder g))
     = map (\<lambda>n. if Content \<in> set (labels n) \<and> get_prop n K_embedding = None
                 then (case embedder (get_prop n K_chunk) of
                         None \<Rightarrow> n
                       | Some vec \<Rightarrow> set_node_props [(K_embedding, VVec vec)] n)
                 else n)
         (nodes g)"
proof -
  let ?P = "\<lambda>n. Content \<in> set (labels n) \<and> get_prop n K_embedding = None"
  have d: "distinct (map nid (filter ?P (nodes g)))"
    using assms by (rule distinct_map_filter)
  have recs: "backfill_records g = map (\<lambda>n. (nid n, get_prop n K_chunk)) (filter ?P (nodes g))"
    by (simp add: backfill_records_def)
  show ?thesis
    unfolding backfill_def recs backfill_loop_nodes [OF d]
    by (rule map_cong) (simp_all add: find_own [OF assms])
qed

lemma backfill_errors:
  "snd (backfill embedder g)
     = map nid (filter (\<lambda>n. embedder (get_prop n K_chunk) = None)
                  (filter (\<lambda>n. Content \<in> set (labels n) \<and> get_prop n K_embedding = None)
                     (nodes g)))"
  unfolding backfill_def backfill_records_def
  using backfill_loop_errors [of embedder
      "filter (\<lambda>n. Content \<in> set (labels n) \<and> get_prop n K_embedding = None) (nodes g)" g]
  by simp

text \<open>
  Claim C7: after a backfill pass in which no embedding call failed (no error line was
  printed), no Content node of the graph is without an embedding. The pass selects exactly the
  Content nodes whose embedding is unset, embeds the \<open>chunk\<close> of each and writes that vector
  on that very node, found by its identity: node by node, a Content node that had no embedding
  is the same node with the vector of its own text as \<open>embedding\<close>, and every other node, as
  every relationship, is as it was. The identities of the nodes are distinct, as those of the
  store are.
\<close>

theorem backfill_complete:
  assumes "distinct (map nid (nodes g))" and "snd (backfill embedder g) = []"
  shows "(\<forall>n \<in> set (nodes (fst (backfill embedder g))).
            Content \<in> set (labels n) \<longrightarrow> get_prop n K_embedding \<noteq> None)
         \<and> list_all2
             (\<lambda>n n'. if Content \<in> set (labels n) \<and> get_prop n K_embedding = None
                      then \<exists>vec. embedder (get_prop n K_chunk) = Some vec
                             \<and> n' = set_node_props [(K_embedding, VVec vec)] n
                      else n' = n)
             (nodes g) (nodes (fst (backfill embedder g)))
         \<and> map nid (nodes (fst (backfill embedder g))) = map nid (nodes g)
         \<and> map labels (nodes (fst (backfill embedder g))) = map labels (nodes g)
         \<and> rels (fst (backfill embedder g)) = rels g
         \<and> next_id (fst (backfill embedder g)) = next_id g"
proof -
  let ?P = "\<lambda>n. Content \<in> set (labels n) \<and> get_prop n K_embedding = None"
  let ?f = "\<lambda>n. if ?P n
                 then (case embedder (get_prop n K_chunk) of
                         None \<Rightarrow> n
                       | Some vec \<Rightarrow> set_node_props [(K_embedding, VVec vec)] n)
                 else n"
  have nodes: "nodes (fst (backfill embedder g)) = map ?f (nodes g)"
    using assms(1) by (rule backfill_nodes)
  have ok: "\<exists>vec. embedder (get_prop n K_chunk) = Some vec" if "n \<in> set (nodes g)" "?P n" for n
  proof (rule ccontr)
    assume "\<not> (\<exists>vec. embedder (get_prop n K_chunk) = Some vec)"
    then have "embedder (get_prop n K_chunk) = None" by simp
    with that have "nid n \<in> set (snd (backfill embedder g))"
      unfolding backfill_errors by simp
    with assms(2) show False by simp
  qed
  have each: "if ?P n
      then \<exists>vec. embedder (get_prop n K_chunk) = Some vec
             \<and> ?f n = set_node_props [(K_embedding, VVec vec)] n
      else ?f n = n" if "n \<in> set (nodes g)" for n
    using ok [OF that] by auto
  have c1: "\<forall>n \<in> set (nodes (fst (backfill embedder g))).
            Content \<in> set (labels n) \<longrightarrow> get_prop n K_embedding \<noteq> None"
  proof
    fix n' assume "n' \<in> set (nodes (fst (backfill embedder g)))"
    then obtain n where n: "n \<in> set (nodes g)" and n': "n' = ?f n"
      unfolding nodes by auto
    show "Content \<in> set (labels n') \<longrightarrow> get_prop n' K_embedding \<noteq> None"
    proof (cases "?P n")
      case True
      with ok [OF n] obtain vec where "n' = set_node_props [(K_embedding, VVec vec)] n"
        unfolding n' by auto
      then show ?thesis by (simp add: get_prop_set_same)
    next
      case False
      then show ?thesis unfolding n' by auto
    qed
  qed
  have c2: "list_all2
             (\<lambda>n n'. if ?P n
                      then \<exists>vec. embedder (get_prop n K_chunk) = Some vec
                             \<and> n' = set_node_props [(K_embedding, VVec vec)] n
                      else n' = n)
             (nodes g) (nodes (fst (backfill embedder g)))"
    unfolding nodes list_all2_map2 list_all2_same using each by blast
  have c3: "map nid (nodes (fst (backfill embedder g))) = map nid (nodes g)"
    unfolding nodes map_map by (rule map_cong) (simp_all split: option.splits)
  have c4: "map labels (nodes (fst (backfill embedder g))) = map labels (nodes g)"
    unfolding nodes map_map by (rule map_cong) (simp_all split: option.splits)
  have c5: "rels (fst (backfill embedder g)) = rels g
      \<and> next_id (fst (backfill embedder g)) = next_id g"
    unfolding backfill_def by (rule backfill_loop_others)
  from c1 c2 c3 c4 c5 show ?thesis by blast
qed

theorem backfill_complete_witness:
  "distinct (map nid (nodes three_fragment_graph))
   \<and> snd (backfill codepoint_embedder three_fragment_graph) = []
   \<and> fst (backfill codepoint_embedder three_fragment_graph) =
       \<lparr>nodes =
          [\<lparr>nid = 0, labels = [Article], props = [(K_article_id, VStr [65])]\<rparr>,
           \<lparr>nid = 1, labels = [Content],
             props = [(K_content_id, VStr [65, 48]), (K_chunk, VStr [97]), (K_embedding, VVec [5])]\<rparr>,
           \<lparr>nid = 2, labels = [Content],
             props = [(K_content_id, VStr [65, 49]), (K_chunk, VStr [98]),
                      (K_embedding, VVec [98])]\<rparr>,
           \<lparr>nid = 3, labels = [Content],
             props = [(K_content_id, VStr [65, 50]), (K_chunk, VStr [99, 100]),
                      (K_embedding, VVec [99, 100])]\<rparr>],
        rels = [\<lparr>rtype = HAS_CHUNK, src = 0, dst = 1\<rparr>, \<lparr>rtype = HAS_CHUNK, src = 0, dst = 2\<rparr>,
                \<lparr>rtype = HAS_CHUNK, src = 0, dst = 3\<rparr>],
        next_id = 4\<rparr>
   \<and> nodes (fst (backfill codepoint_embedder three_fragment_graph)) ! 0
       = nodes three_fragment_graph ! 0
   \<and> nodes (fst (backfill codepoint_embedder three_fragment_graph)) ! 1
       = nodes three_fragment_graph ! 1
   \<and> nodes (fst (backfill codepoint_embedder three_fragment_graph)) ! 2
       = set_node_props [(K_embedding, VVec [98])] (nodes three_fragment_graph ! 2)
   \<and> nodes (fst (backfill codepoint_embedder three_fragment_graph)) ! 3
       = set_node_props [(K_embedding, VVec [99, 100])] (nodes three_fragment_graph ! 3)
   \<and> rels (fst (backfill codepoint_embedder three_fragment_graph)) = rels three_fragment_graph"
proof -
  let ?g = three_fragment_graph
  let ?res = "fst (backfill codepoint_embedder ?g)"
  let ?R = "\<lambda>n n'. if Content \<in> set (labels n) \<and> get_prop n K_embedding = None
                    then \<exists>vec. codepoint_embedder (get_prop n K_chunk) = Some vec
                           \<and> n' = set_node_props [(K_embedding, VVec vec)] n
                    else n' = n"
  have d: "distinct (map nid (nodes ?g))"
    by (simp add: three_fragment_graph_def)
  have run: "backfill codepoint_embedder ?g =
      (\<lparr>nodes =
          [\<lparr>nid = 0, labels = [Article], props = [(K_article_id, VStr [65])]\<rparr>,
           \<lparr>nid = 1, labels = [Content],
             props = [(K_content_id, VStr [65, 48]), (K_chunk, VStr [97]), (K_embedding, VVec [5])]\<rparr>,
           \<lparr>nid = 2, labels = [Content],
             props = [(K_content_id, VStr [65, 49]), (K_chunk, VStr [98]),
                      (K_embedding, VVec [98])]\<rparr>,
           \<lparr>nid = 3, labels = [Content],
             props = [(K_content_id, VStr [65, 50]), (K_chunk, VStr [99, 100]),
                      (K_embedding, VVec [99, 100])]\<rparr>],
        rels = [\<lparr>rtype = HAS_CHUNK, src = 0, dst = 1\<rparr>, \<lparr>rtype = HAS_CHUNK, src = 0, dst = 2\<rparr>,
                \<lparr>rtype = HAS_CHUNK, src = 0, dst = 3\<rparr>],
        next_id = 4\<rparr>, [])"
    by (simp add: three_fragment_graph_def codepoint_embedder_def backfill_def
        backfill_records_def get_prop_def set_embedding_def set_node_props_def)
  then have h: "snd (backfill codepoint_embedder ?g) = []" by simp
  note pass = backfill_complete [OF d h]
  from pass have all: "list_all2 ?R (nodes ?g) (nodes ?res)" by (elim conjE)
  from pass have rels: "rels ?res = rels ?g" by (elim conjE)
  have len: "length (nodes ?g) = 4" by (simp add: three_fragment_graph_def)
  have at: "?R (nodes ?g ! i) (nodes ?res ! i)" if "i < 4" for i
    using list_all2_nthD [OF all, of i] that len by simp
  have n0: "nodes ?res ! 0 = nodes ?g ! 0"
    using at [of 0] by (simp add: three_fragment_graph_def)
  have n1: "nodes ?res ! 1 = nodes ?g ! 1"
    using at [of 1] by (simp add: three_fragment_graph_def get_prop_def)
  have n2: "nodes ?res ! 2 = set_node_props [(K_embedding, VVec [98])] (nodes ?g ! 2)"
    using at [of 2] by (simp add: three_fragment_graph_def get_prop_def codepoint_embedder_def)
  have n3: "nodes ?res ! 3 = set_node_props [(K_embedding, VVec [99, 100])] (nodes ?g ! 3)"
    using at [of 3] by (simp add: three_fragment_graph_def get_prop_def codepoint_embedder_def)
  from d h run n0 n1 n2 n3 rels show ?thesis by simp
qed

section \<open>Properties of the graph-expanded retrieval\<close>

lemma related_at_most_five:
  "(h, rs) \<in> set (retrieval_query with_media g seeds) \<Longrightarrow> length rs \<le> 5"
  by (auto simp: retrieval_query_def)

lemmas retrieval_defs = retrieval_query_def expand_def in_nodes_def out_nodes_def opt_rows_def
  hit_of_def related_map_def opt_prop_def get_prop_def group_rows_def uniq_def
  one_article_graph_def

text \<open>
  Claim C8 says that every entry of the \<open>related_articles\<close> of a seed is a sibling Article of
  the seed's article, and that there are at most five. The bound holds (lemma above); the first
  part fails on the graph that holds one article only: the article has no sibling in its
  category, \<open>related_article\<close> is null, and the collected list still holds one entry, the map
  whose four values are null. The entry is no Article. Both variants of the query do this.
\<close>

theorem retrieval_phantom_related:
  "build_graph_from_dataframe no_faults empty_graph
      [(IxInt 0, sample_row (asc ''A'') (asc ''ab''))] 500 50
     = (one_article_graph, [])
   \<and> map snd (retrieval_query False one_article_graph [(1, 9 / 10)])
       = [[(None, None, None, None)]]
   \<and> map snd (retrieval_query True one_article_graph [(1, 9 / 10)])
       = [[(None, None, None, None)]]"
proof -
  have "build_graph_from_dataframe no_faults empty_graph
      [(IxInt 0, sample_row (asc ''A'') (asc ''ab''))] 500 50
     = (one_article_graph, [])"
    by code_simp
  moreover have "map snd (retrieval_query False one_article_graph [(1, 9 / 10)])
       = [[(None, None, None, None)]]"
    by (simp add: retrieval_defs)
  moreover have "map snd (retrieval_query True one_article_graph [(1, 9 / 10)])
       = [[(None, None, None, None)]]"
    by (simp add: retrieval_defs)
  ultimately show ?thesis by blast
qed

section \<open>Properties of the search handler\<close>

text \<open>
  Claim C10: \<open>get_icon_for_category\<close> is a total function of the category string: the six known
  categories are mapped to six different glyphs, and every other string, the empty string
  among them, is mapped to the one default glyph (the newspaper, code point 128240).
\<close>

theorem get_icon_for_category_table:
  "map get_icon_for_category
     [[51221, 52824], [44221, 51228], [49324, 54924], [49373, 54876, 47, 47928, 54868],
      [73, 84, 47, 44284, 54617], [49464, 44228]]
     = [[127963, 65039], [128188], [128101], [127917], [128187], [127757]]
   \<and> distinct (map get_icon_for_category (map fst icons))
   \<and> (category \<notin> set (map fst icons) \<longrightarrow> get_icon_for_category category = [128240])
   \<and> get_icon_for_category [] = [128240]"
proof -
  have "map_of icons category = None" if "category \<notin> set (map fst icons)"
    using that by (simp add: map_of_eq_None_iff)
  then have "category \<notin> set (map fst icons) \<longrightarrow> get_icon_for_category category = [128240]"
    by (simp add: get_icon_for_category_def default_icon_def)
  moreover have "map get_icon_for_category
     [[51221, 52824], [44221, 51228], [49324, 54924], [49373, 54876, 47, 47928, 54868],
      [73, 84, 47, 44284, 54617], [49464, 44228]]
     = [[127963, 65039], [128188], [128101], [127917], [128187], [127757]]"
    by (simp add: get_icon_for_category_def icons_def)
  moreover have "distinct (map get_icon_for_category (map fst icons))"
    by (simp add: get_icon_for_category_def icons_def)
  moreover have "get_icon_for_category [] = [128240]"
    by (simp add: get_icon_for_category_def icons_def default_icon_def)
  ultimately show ?thesis by blast
qed

theorem get_icon_for_category_table_witness:
  "asc ''unknown'' \<notin> set (map fst icons) \<and> get_icon_for_category (asc ''unknown'') = [128240]"
proof -
  have "asc ''unknown'' \<notin> set (map fst icons)" by (simp add: icons_def)
  with get_icon_for_category_table [of "asc ''unknown''"] show ?thesis by blast
qed

text \<open>
  Claim C9, as the specification states it, fails: the fallback is taken only when
  \<open>json.loads\<close> raises. An answer that is valid JSON of another shape is not wrapped: for the
  answer \<open>[]\<close>, which \<open>json.loads\<close> reads as the empty list, \<open>parsed_result.get\<close> raises and the
  handler answers with HTTP status 500.
\<close>

theorem search_wrong_shape_counterexample:
  "search (\<lambda>s. if s = asc ''[]'' then Some (JList []) else None) (asc ''[]'')
     = Inl (HTTPException 500)"
  by (simp add: search_def strip_fences_def startswith_def strip_def isspace_def
      build_response_def json_get_def)

text \<open>
  Claim C9, amended: for every answer on which \<open>json.loads\<close> raises (after the markdown code
  fence, if any, has been removed), the handler raises nothing: it returns exactly one section,
  titled with the fixed generic title, whose content is the raw answer and whose \<open>sourceIds\<close>
  are empty, and an empty list of sources.
\<close>

theorem search_fallback:
  assumes "loads (strip_fences answer) = None"
  shows "search loads answer =
           Inr \<lparr>sections = JList [JDict [(asc ''title'', JStr [44160, 49353, 32, 44208, 44284]),
                                         (asc ''content'', JStr answer),
                                         (asc ''sourceIds'', JList [])]],
                sources = []\<rparr>"
  using assms
  by (simp add: search_def fallback_result_def build_response_def json_get_def json_iter_def
      dict_get_def)

theorem search_fallback_witness:
  "(\<lambda>s. None :: json option) (strip_fences (asc ''sorry'')) = None
   \<and> search (\<lambda>s. None) (asc ''sorry'') =
       Inr \<lparr>sections = JList [JDict [(asc ''title'', JStr [44160, 49353, 32, 44208, 44284]),
                                     (asc ''content'', JStr (asc ''sorry'')),
                                     (asc ''sourceIds'', JList [])]],
            sources = []\<rparr>"
  using search_fallback [of "\<lambda>s. None" "asc ''sorry''"] by simp

end
